theory Spec2Isabelle
  imports Main "HOL-Library.List_Lexorder" "HOL-Library.Char_ord"
begin

section \<open>Data model of the require checker\<close>

text \<open>
  JavaScript strings are modelled as \<open>string\<close> (lists of \<open>char\<close>); the comparison
  \<open><\<close> of two JavaScript strings is the lexicographic order on code units, here the
  order of \<open>List_Lexorder\<close> over \<open>Char_ord\<close>.

  The source uses plain objects (\<open>{}\<close>) as dictionaries. Where every stored value
  is \<open>1\<close> (\<open>idsMap\<close>, \<open>map\<close>, \<open>jsdocTypesMap\<close>, \<open>provideRequireMap\<close>, \<open>providesMap\<close>)
  the object is modelled by the list of its own keys in insertion order, and
  \<open>for (k in o)\<close> walks the list. (JavaScript visits keys that look like array indices
  first; every loop over keys in the source treats each key on its own and the lists
  it fills are sorted at the end, so the order of the walk has no influence on a
  result.)

  A plain object inherits the members of \<open>Object.prototype\<close>, and the source reads its
  dictionaries with \<open>o[k]\<close>, never with \<open>hasOwnProperty\<close>. So the test \<open>o[k]\<close> is true for
  an own key and also for the name of an inherited member (all of them are functions
  or objects, hence truthy): this is \<open>truthyAt\<close>. The assignment \<open>o[k] = 1\<close> creates
  an own key, except for \<open>__proto__\<close>, whose inherited setter ignores a number:
  this is \<open>setKey\<close>. The names are those of Node.

  The two memo caches hold, as own entries, \<open>null\<close> (\<open>Some None\<close>) or a provide
  (\<open>Some (Some p)\<close>) for a usage string. Reading a cache at a key gives the own entry,
  else the inherited member of that name, else \<open>undefined\<close>: this is \<open>cacheGet\<close>. An
  inherited member used as a key is converted to a string, \<open>memberText\<close>.
\<close>

record Token =
  tok_type :: string
  tok_value :: string

record Comment =
  com_type :: string
  com_value :: string

record SyntaxTree =
  tokens :: "Token list option"
  comments :: "Comment list option"

record Source =
  path :: string
  provides :: "string list"
  requires :: "string list"
  syntaxTree :: "SyntaxTree option"

type_synonym cache = "string \<rightharpoonup> string option"

record RequireChecker =
  docCache :: cache
  excludeProvides :: "string list option"
  jsCache :: cache

record WrongRequires =
  missingRequires :: "string list"
  unnecessaryRequires :: "string list"

datatype Error = Error string

definition objectPrototypeKeys :: "string list" where
  "objectPrototypeKeys =
     [''constructor'', ''__defineGetter__'', ''__defineSetter__'', ''hasOwnProperty'',
      ''__lookupGetter__'', ''__lookupSetter__'', ''isPrototypeOf'', ''propertyIsEnumerable'',
      ''toString'', ''valueOf'', ''__proto__'', ''toLocaleString'']"

definition truthyAt :: "string list \<Rightarrow> string \<Rightarrow> bool" where
  "truthyAt m k = (k \<in> set m \<or> k \<in> set objectPrototypeKeys)"

definition setKey :: "string \<Rightarrow> string list \<Rightarrow> string list" where
  "setKey k m = (if k = ''__proto__'' \<or> k \<in> set m then m else m @ [k])"

datatype Looked = Undefined | Null | Str string | Member string

definition cacheGet :: "cache \<Rightarrow> string \<Rightarrow> Looked" where
  "cacheGet c k =
     (case c k of
        Some None \<Rightarrow> Null
      | Some (Some p) \<Rightarrow> Str p
      | None \<Rightarrow> if k \<in> set objectPrototypeKeys then Member k else Undefined)"

definition memberText :: "string \<Rightarrow> string" where
  "memberText k =
     (if k = ''__proto__'' then ''[object Object]''
      else ''function '' @ (if k = ''constructor'' then ''Object'' else k) @ ''() { [native code] }'')"

section \<open>\<open>RequireChecker.getFileIdsMap\<close>\<close>

text \<open>\<open>Array.prototype.indexOf\<close>: the first index holding the value, or \<open>-1\<close>.\<close>

fun arrayIndexOf :: "'a list \<Rightarrow> 'a \<Rightarrow> int" where
  "arrayIndexOf [] v = - 1"
| "arrayIndexOf (x # xs) v =
     (if x = v then 0
      else (let i = arrayIndexOf xs v in if i < 0 then - 1 else i + 1))"

text \<open>\<open>id.join('.')\<close>.\<close>

fun joinDot :: "string list \<Rightarrow> string" where
  "joinDot [] = []"
| "joinDot [x] = x"
| "joinDot (x # y # ys) = x @ ''.'' @ joinDot (y # ys)"

text \<open>
  The callback of \<open>tokens.forEach\<close>, on the pair of the two variables it closes over:
  \<open>idsMap\<close> and the identifier array \<open>id\<close> (written \<open>idn\<close>, as \<open>id\<close> is the identity
  function of HOL).
\<close>

definition idsStep :: "string list \<times> string list \<Rightarrow> Token \<Rightarrow> string list \<times> string list" where
  "idsStep st token =
     (case st of (idsMap, idn) \<Rightarrow>
        if tok_type token = ''Identifier'' then (idsMap, idn @ [tok_value token])
        else if (tok_type token \<noteq> ''Punctuator'' \<or> tok_value token \<noteq> ''.'') \<and> idn \<noteq> [] then
          (let index = arrayIndexOf idn ''prototype'';
               idn' = (if - 1 < index then take (nat index) idn else idn);
               fullId = joinDot idn'
           in (if \<not> truthyAt idsMap fullId then setKey fullId idsMap else idsMap, []))
        else (idsMap, idn))"

definition getFileIdsMap :: "Token list \<Rightarrow> string list" where
  "getFileIdsMap toks = fst (foldl idsStep ([], []) toks)"

section \<open>Matching a usage against a provide\<close>

definition wordChars :: string where
  "wordChars = ''ABCDEFGHIJKLMNOPQRSTUVWXYZabcdefghijklmnopqrstuvwxyz0123456789_''"

text \<open>\<open>String.prototype.indexOf\<close>: the first position where \<open>p\<close> occurs in \<open>s\<close>, or \<open>-1\<close>.\<close>

fun stringIndexOf :: "string \<Rightarrow> string \<Rightarrow> int" where
  "stringIndexOf [] p = (if p = [] then 0 else - 1)"
| "stringIndexOf (c # s) p =
     (if take (length p) (c # s) = p then 0
      else (let i = stringIndexOf s p in if i < 0 then - 1 else i + 1))"

text \<open>\<open>s[n]\<close>: the character at an index, \<open>undefined\<close> (\<open>None\<close>) out of range.\<close>

definition charAt :: "string \<Rightarrow> nat \<Rightarrow> char option" where
  "charAt s n = (if n < length s then Some (s ! n) else None)"

text \<open>
  \<open>/[^\w\$]/.test(ch)\<close> on the result of \<open>s[n]\<close>: \<open>undefined\<close> is converted to the
  string \<open>undefined\<close>, which has word characters only.
\<close>

definition testNonWordDollar :: "char option \<Rightarrow> bool" where
  "testNonWordDollar ch =
     (case ch of None \<Rightarrow> False | Some c \<Rightarrow> c \<notin> set wordChars \<and> c \<noteq> CHR ''$'')"

text \<open>The condition of the callback of \<open>provides.every\<close> for code identifiers.\<close>

definition jsMatches :: "string \<Rightarrow> string \<Rightarrow> bool" where
  "jsMatches provide idn =
     (0 = stringIndexOf idn provide \<and>
      (length idn = length provide \<or> testNonWordDollar (charAt idn (length provide))))"

subsection \<open>Doc-type matching\<close>

text \<open>
  For a doc type the callback of \<open>provides.every\<close> builds the source text of a regular
  expression from the provide, constructs it and searches the doc type, padded with
  a blank on both sides. The string \<open>replace\<close> with a string pattern rewrites the first
  occurrence only, so only the first \<open>.\<close> and the first \<open>$\<close> of a provide are escaped, and
  nothing else is: the rest of the provide is read by the engine as pattern syntax.

  \<open>RegExp\<close> belongs to the language and is a parameter of the model: \<open>search pattern s\<close>
  stands for \<open>s.search(new RegExp(pattern))\<close> and is either the \<open>SyntaxError\<close> that the
  constructor throws (\<open>Inl\<close>) or the index of the first match, \<open>-1\<close> when there is none.
\<close>

type_synonym regExp = "string \<Rightarrow> string \<Rightarrow> Error + int"

fun replaceFirst :: "char \<Rightarrow> string \<Rightarrow> string \<Rightarrow> string" where
  "replaceFirst c new [] = []"
| "replaceFirst c new (x # xs) = (if x = c then new @ xs else x # replaceFirst c new xs)"

definition escaped :: "string \<Rightarrow> string" where
  "escaped provide =
     replaceFirst (CHR ''$'') [CHR 0x5C, CHR ''$'']
       (replaceFirst (CHR ''.'') [CHR 0x5C, CHR ''.''] provide)"

definition docPattern :: "string \<Rightarrow> string" where
  "docPattern provide = ''[^A-Za-z0-9_.$]'' @ escaped provide @ ''[^A-Za-z0-9_$]''"

definition docMatches :: "regExp \<Rightarrow> string \<Rightarrow> string \<Rightarrow> Error + bool" where
  "docMatches search provide idn =
     (case search (docPattern provide) ('' '' @ idn @ '' '') of
        Inl e \<Rightarrow> Inl e
      | Inr i \<Rightarrow> Inr (- 1 < i))"

section \<open>\<open>getWrongRequiresInFile\<close>\<close>

text \<open>
  \<open>provides.every(callback)\<close>: the candidates are visited in list order and the walk
  stops at the first one the callback answers \<open>false\<close> for, which is the first match.
  In the doc loop the callback constructs a regular expression for every candidate
  it visits, and the \<open>SyntaxError\<close> of a candidate ends the walk as an exception.
\<close>

fun everyProvide :: "(string \<Rightarrow> string \<Rightarrow> bool) \<Rightarrow> string \<Rightarrow> string list \<Rightarrow> string option" where
  "everyProvide matches idn [] = None"
| "everyProvide matches idn (provide # rest) =
     (if matches provide idn then Some provide else everyProvide matches idn rest)"

fun everyProvideDoc :: "regExp \<Rightarrow> string \<Rightarrow> string list \<Rightarrow> Error + string option" where
  "everyProvideDoc search idn [] = Inr None"
| "everyProvideDoc search idn (provide # rest) =
     (case docMatches search provide idn of
        Inl e \<Rightarrow> Inl e
      | Inr hit \<Rightarrow> if hit then Inr (Some provide) else everyProvideDoc search idn rest)"

text \<open>
  The loop \<open>for (id in usedNamespacesMap)\<close> that fills \<open>map\<close> through \<open>_jsCache\<close>. A
  cached value is used when it is truthy: a non-empty string, or the inherited member
  the cache answers for a key named like one. \<open>null\<close> and the empty string fall through
  both branches. The match condition is a parameter; the source passes the prefix
  test.
\<close>

fun resolveIds ::
  "(string \<Rightarrow> string \<Rightarrow> bool) \<Rightarrow> string list \<Rightarrow> string list \<Rightarrow> cache \<Rightarrow> string list
    \<Rightarrow> string list \<times> cache" where
  "resolveIds matches provs [] c m = (m, c)"
| "resolveIds matches provs (idn # ids) c m =
     (case cacheGet c idn of
        Str p \<Rightarrow>
          if p \<noteq> [] then resolveIds matches provs ids c (setKey p m)
          else resolveIds matches provs ids c m
      | Member k \<Rightarrow> resolveIds matches provs ids c (setKey (memberText k) m)
      | Null \<Rightarrow> resolveIds matches provs ids c m
      | Undefined \<Rightarrow>
          (case everyProvide matches idn provs of
             Some provide \<Rightarrow>
               resolveIds matches provs ids (c(idn \<mapsto> Some provide)) (setKey provide m)
           | None \<Rightarrow> resolveIds matches provs ids (c(idn \<mapsto> None)) m))"

text \<open>
  The loop \<open>for (id in jsdocTypesMap)\<close> through \<open>_docCache\<close>. It is the loop above with
  the regular expression in place of the prefix test; an exception leaves it with the
  cache as it is then, the entry of the current type set to \<open>null\<close>.
\<close>

fun resolveDocIds ::
  "regExp \<Rightarrow> string list \<Rightarrow> string list \<Rightarrow> cache \<Rightarrow> string list
    \<Rightarrow> (Error + string list) \<times> cache" where
  "resolveDocIds search provs [] c m = (Inr m, c)"
| "resolveDocIds search provs (idn # ids) c m =
     (case cacheGet c idn of
        Str p \<Rightarrow>
          if p \<noteq> [] then resolveDocIds search provs ids c (setKey p m)
          else resolveDocIds search provs ids c m
      | Member k \<Rightarrow> resolveDocIds search provs ids c (setKey (memberText k) m)
      | Null \<Rightarrow> resolveDocIds search provs ids c m
      | Undefined \<Rightarrow>
          (case everyProvideDoc search idn provs of
             Inl e \<Rightarrow> (Inl e, c(idn \<mapsto> None))
           | Inr (Some provide) \<Rightarrow>
               resolveDocIds search provs ids (c(idn \<mapsto> Some provide)) (setKey provide m)
           | Inr None \<Rightarrow> resolveDocIds search provs ids (c(idn \<mapsto> None)) m))"

text \<open>\<open>'Block' == comment.type && /^\*[^\*]/.test(comment.value)\<close>.\<close>

definition isDocComment :: "Comment \<Rightarrow> bool" where
  "isDocComment comment =
     (com_type comment = ''Block'' \<and>
      (case com_value comment of
         a # b # _ \<Rightarrow> a = CHR ''*'' \<and> b \<noteq> CHR ''*''
       | _ \<Rightarrow> False))"

text \<open>
  The walk over \<open>syntaxTree.comments\<close> that fills \<open>jsdocTypesMap\<close>. The extraction of
  the type expressions of a comment, \<open>jsdocParser.getTypes\<close>, is a collaborator of the
  checker and a parameter here.
\<close>

definition collectTypes :: "(string \<Rightarrow> string list) \<Rightarrow> Comment list \<Rightarrow> string list" where
  "collectTypes getTypes cs =
     foldl (\<lambda>m comment.
              if isDocComment comment
              then foldl (\<lambda>m' t. setKey t m') m (getTypes (com_value comment))
              else m) [] cs"

text \<open>
  The result is the object the function returns, or the exception that leaves it
  (the function has no \<open>try\<close>), together with the checker, whose caches the function
  updates in place.
\<close>

definition getWrongRequiresInFile ::
  "(string \<Rightarrow> string list) \<Rightarrow> regExp \<Rightarrow> RequireChecker \<Rightarrow> Source \<Rightarrow> string list
    \<Rightarrow> (Error + WrongRequires) \<times> RequireChecker" where
  "getWrongRequiresInFile getTypes search this jsSource provs =
     (case syntaxTree jsSource of
        None \<Rightarrow> (Inr \<lparr>missingRequires = [], unnecessaryRequires = []\<rparr>, this)
      | Some tree \<Rightarrow>
          (let (usedNamespacesMap, jsCache') =
                 (case tokens tree of
                    None \<Rightarrow> ([], jsCache this)
                  | Some toks \<Rightarrow>
                      resolveIds jsMatches provs (getFileIdsMap toks) (jsCache this) []);
               (docLoop, docCache') =
                 (case comments tree of
                    None \<Rightarrow> (Inr [], docCache this)
                  | Some cs \<Rightarrow>
                      resolveDocIds search provs (collectTypes getTypes cs) (docCache this) []);
               this' = this\<lparr>docCache := docCache', jsCache := jsCache'\<rparr>
           in (case docLoop of
                 Inl e \<Rightarrow> (Inl e, this')
               | Inr jsdocTypesMap \<Rightarrow>
                   (let unnecessary =
                          filter (\<lambda>require. \<not> truthyAt usedNamespacesMap require
                                             \<and> \<not> truthyAt jsdocTypesMap require)
                            (requires jsSource);
                        provideRequireMap =
                          foldl (\<lambda>m k. setKey k m) [] (provides jsSource @ requires jsSource);
                        missing = filter (\<lambda>idn. \<not> truthyAt provideRequireMap idn) usedNamespacesMap
                    in (Inr \<lparr>missingRequires = sort missing, unnecessaryRequires = sort unnecessary\<rparr>,
                        this')))))"

text \<open>A checker as its constructor leaves it: both caches empty.\<close>

definition newRequireChecker :: RequireChecker where
  "newRequireChecker = \<lparr>docCache = Map.empty, excludeProvides = None, jsCache = Map.empty\<rparr>"

section \<open>\<open>getWrongRequires\<close>\<close>

text \<open>
  The provide registry of a run. \<open>providesMap\<close> collects the provides of the analysed
  and the extern sources; the excluded provides are deleted from it; its keys are
  copied to the array \<open>provides\<close>, which is sorted with the comparison function
  \<open>a < b ? 1 : a > b ? -1 : 0\<close>.
\<close>

definition collectProvides :: "Source list \<Rightarrow> string list" where
  "collectProvides srcs =
     foldl (\<lambda>m jsSource. foldl (\<lambda>m' provide. setKey provide m') m (provides jsSource)) [] srcs"

definition deleteKey :: "string \<Rightarrow> string list \<Rightarrow> string list" where
  "deleteKey k m = filter (\<lambda>x. x \<noteq> k) m"

definition excludeFrom :: "string list option \<Rightarrow> string list \<Rightarrow> string list" where
  "excludeFrom ex m =
     (case ex of
        None \<Rightarrow> m
      | Some xs \<Rightarrow> foldl (\<lambda>m' provide. if truthyAt m' provide then deleteKey provide m' else m') m xs)"

definition compareDesc :: "string \<Rightarrow> string \<Rightarrow> int" where
  "compareDesc a b = (if a < b then 1 else if a > b then - 1 else 0)"

text \<open>
  \<open>Array.prototype.sort\<close> with a comparison function, as an insertion sort. The keys
  of \<open>providesMap\<close> are pairwise different, so every sorting algorithm returns the
  same array for them.
\<close>

fun insertBy :: "('a \<Rightarrow> 'a \<Rightarrow> int) \<Rightarrow> 'a \<Rightarrow> 'a list \<Rightarrow> 'a list" where
  "insertBy cmp x [] = [x]"
| "insertBy cmp x (y # ys) = (if cmp x y \<le> 0 then x # y # ys else y # insertBy cmp x ys)"

definition sortBy :: "('a \<Rightarrow> 'a \<Rightarrow> int) \<Rightarrow> 'a list \<Rightarrow> 'a list" where
  "sortBy cmp xs = foldr (insertBy cmp) xs []"

definition provideRegistry :: "RequireChecker \<Rightarrow> Source list \<Rightarrow> Source list \<Rightarrow> string list" where
  "provideRegistry this jsSources externSources =
     sortBy compareDesc
       (excludeFrom (excludeProvides this) (collectProvides (jsSources @ externSources)))"

text \<open>
  The walk \<open>jsSources.forEach\<close> that checks every analysed file with the same provide
  array and the same checker, and keeps the non-empty lists under the path of the
  file. The two result objects are modelled by their own entries, so the assignment
  under the path \<open>__proto__\<close> adds none. An exception of a file ends the walk.
\<close>

definition setEntry :: "string \<Rightarrow> 'v \<Rightarrow> (string \<rightharpoonup> 'v) \<Rightarrow> (string \<rightharpoonup> 'v)" where
  "setEntry k v m = (if k = ''__proto__'' then m else m(k \<mapsto> v))"

fun checkSources ::
  "(string \<Rightarrow> string list) \<Rightarrow> regExp \<Rightarrow> string list \<Rightarrow> Source list \<Rightarrow> RequireChecker
    \<Rightarrow> (string \<rightharpoonup> string list) \<times> (string \<rightharpoonup> string list)
    \<Rightarrow> (Error + (string \<rightharpoonup> string list) \<times> (string \<rightharpoonup> string list)) \<times> RequireChecker" where
  "checkSources getTypes search provs [] this maps = (Inr maps, this)"
| "checkSources getTypes search provs (jsSource # rest) this (missingRequiresMap, unnecessaryRequiresMap) =
     (case getWrongRequiresInFile getTypes search this jsSource provs of
        (Inl e, this') \<Rightarrow> (Inl e, this')
      | (Inr info, this') \<Rightarrow>
          (let missingRequiresMap' =
                 (if missingRequires info \<noteq> []
                  then setEntry (path jsSource) (missingRequires info) missingRequiresMap
                  else missingRequiresMap);
               unnecessaryRequiresMap' =
                 (if unnecessaryRequires info \<noteq> []
                  then setEntry (path jsSource) (unnecessaryRequires info) unnecessaryRequiresMap
                  else unnecessaryRequiresMap)
           in checkSources getTypes search provs rest this'
                (missingRequiresMap', unnecessaryRequiresMap')))"

text \<open>
  \<open>getWrongRequires\<close>, given what \<open>utils.findSourcesByJsFiles\<close> answers for the
  analysed files and for the extern files: the sources, or the exception it throws
  (\<open>Inl\<close>). An empty list of extern files is \<open>Inr []\<close>. An exception of the search is
  caught and passed to the callback; an exception of the check of a file is not
  caught and leaves \<open>getWrongRequires\<close>; otherwise the callback receives the two maps.
\<close>

datatype RunResult =
  Reported Error
| Thrown Error
| Done "string \<rightharpoonup> string list" "string \<rightharpoonup> string list"

definition getWrongRequires ::
  "(string \<Rightarrow> string list) \<Rightarrow> regExp \<Rightarrow> RequireChecker \<Rightarrow> Error + Source list
    \<Rightarrow> Error + Source list \<Rightarrow> RunResult \<times> RequireChecker" where
  "getWrongRequires getTypes search this foundJs foundExterns =
     (case foundJs of
        Inl e \<Rightarrow> (Reported e, this)
      | Inr jsSources \<Rightarrow>
          (case foundExterns of
             Inl e \<Rightarrow> (Reported e, this)
           | Inr externSources \<Rightarrow>
               (let provs = provideRegistry this jsSources externSources
                in (case checkSources getTypes search provs jsSources this (Map.empty, Map.empty) of
                      (Inl e, this') \<Rightarrow> (Thrown e, this')
                    | (Inr (missingRequiresMap, unnecessaryRequiresMap), this') \<Rightarrow>
                        (Done missingRequiresMap unnecessaryRequiresMap, this')))))"

subsection \<open>The collaborator that extracts doc types\<close>

text \<open>
  Modelled from the spec: \<open>jsdocParser.getTypes\<close>, defined in the module
  \<open>./jsdocparser\<close>, which is not among the sources. The specification gives its
  contract only: a comment body is mapped to the list of its raw type-expression
  substrings. The model returns the texts between a \<open>{\<close> and the next \<open>}\<close>, in order.
  The checker takes the extractor as a parameter; this instance is used where a
  concrete comment is evaluated.
\<close>

fun getTypesFrom :: "string option \<Rightarrow> string \<Rightarrow> string list" where
  "getTypesFrom cur [] = []"
| "getTypesFrom None (c # cs) =
     (if c = CHR ''{'' then getTypesFrom (Some []) cs else getTypesFrom None cs)"
| "getTypesFrom (Some t) (c # cs) =
     (if c = CHR ''}'' then t # getTypesFrom None cs else getTypesFrom (Some (t @ [c])) cs)"

definition jsdocParser_getTypes :: "string \<Rightarrow> string list" where
  "jsdocParser_getTypes v = getTypesFrom None v"

subsection \<open>A regular-expression engine for the examples\<close>

text \<open>
  Every statement below about the doc loop is made for an arbitrary engine \<open>search\<close>.
  Where a concrete file is evaluated, the engine is \<open>fragmentRegExp\<close>, which reads the
  patterns made of these atoms, with the meaning they have in JavaScript without
  flags: a character that is not a syntax character stands for itself; a backslash
  followed by a syntax character stands for that character; \<open>.\<close> stands for any character
  but a line terminator; \<open>$\<close> holds at the end of the input only; \<open>[^...]\<close> stands for
  any character that is not listed between the brackets, where a listed item is a
  character or a range \<open>c-d\<close> and a backslash does not occur. The patterns built for
  the provides of the examples are of this kind. For every other pattern the
  definition answers an error of its own, which says nothing about what an engine
  does with that pattern; no example evaluates the definition there.
\<close>

datatype RxAtom = RxLit char | RxAny | RxEnd | RxNotIn "(char \<times> char) list"

definition syntaxChars :: string where
  "syntaxChars = CHR 0x5C # ''^$.*+?()[]{}|''"

fun classItems :: "string \<Rightarrow> (char \<times> char) list option" where
  "classItems [] = Some []"
| "classItems (c # d # e # rest) =
     (if c = CHR 0x5C then None
      else if d = CHR ''-'' then
        (if e = CHR 0x5C \<or> e < c then None else map_option ((#) (c, e)) (classItems rest))
      else map_option ((#) (c, c)) (classItems (d # e # rest)))"
| "classItems (c # rest) =
     (if c = CHR 0x5C then None else map_option ((#) (c, c)) (classItems rest))"

function parseRx :: "string \<Rightarrow> RxAtom list option" where
  "parseRx [] = Some []"
| "parseRx (c # cs) =
     (if c = CHR ''.'' then map_option ((#) RxAny) (parseRx cs)
      else if c = CHR ''$'' then map_option ((#) RxEnd) (parseRx cs)
      else if c = CHR 0x5C then
        (case cs of
           [] \<Rightarrow> None
         | d # ds \<Rightarrow> if d \<in> set syntaxChars then map_option ((#) (RxLit d)) (parseRx ds) else None)
      else if c = CHR ''['' then
        (case cs of
           [] \<Rightarrow> None
         | d # ds \<Rightarrow>
             if d = CHR ''^'' \<and> dropWhile (\<lambda>x. x \<noteq> CHR '']'') ds \<noteq> [] then
               (case classItems (takeWhile (\<lambda>x. x \<noteq> CHR '']'') ds) of
                  None \<Rightarrow> None
                | Some items \<Rightarrow>
                    map_option ((#) (RxNotIn items))
                      (parseRx (tl (dropWhile (\<lambda>x. x \<noteq> CHR '']'') ds))))
             else None)
      else if c \<in> set syntaxChars then None
      else map_option ((#) (RxLit c)) (parseRx cs))"
  by pat_completeness auto
termination
proof (relation "measure length")
  fix c d :: char and cs ds :: string
  assume "cs = d # ds"
  have "length (tl (dropWhile (\<lambda>x. x \<noteq> CHR '']'') ds)) \<le> length ds"
    using length_dropWhile_le [of "\<lambda>x. x \<noteq> CHR '']''" ds] by simp
  with \<open>cs = d # ds\<close>
  show "(tl (dropWhile (\<lambda>x. x \<noteq> CHR '']'') ds), c # cs) \<in> measure length" by simp
qed simp_all

fun rxAccepts :: "RxAtom \<Rightarrow> char \<Rightarrow> bool" where
  "rxAccepts (RxLit d) c = (c = d)"
| "rxAccepts RxAny c = (c \<noteq> CHR 0x0A \<and> c \<noteq> CHR 0x0D)"
| "rxAccepts (RxNotIn items) c = (\<not> list_ex (\<lambda>(lo, hi). lo \<le> c \<and> c \<le> hi) items)"
| "rxAccepts RxEnd c = False"

fun rxMatchHere :: "RxAtom list \<Rightarrow> string \<Rightarrow> bool" where
  "rxMatchHere [] s = True"
| "rxMatchHere (RxEnd # rs) s = (s = [] \<and> rxMatchHere rs s)"
| "rxMatchHere (r # rs) [] = False"
| "rxMatchHere (r # rs) (c # s) = (rxAccepts r c \<and> rxMatchHere rs s)"

text \<open>\<open>String.prototype.search\<close>: the index of the first match, or \<open>-1\<close>.\<close>

fun rxSearch :: "RxAtom list \<Rightarrow> string \<Rightarrow> int" where
  "rxSearch rs [] = (if rxMatchHere rs [] then 0 else - 1)"
| "rxSearch rs (c # s) =
     (if rxMatchHere rs (c # s) then 0
      else (let i = rxSearch rs s in if i < 0 then - 1 else i + 1))"

definition fragmentRegExp :: regExp where
  "fragmentRegExp pattern s =
     (case parseRx pattern of
        None \<Rightarrow> Inl (Error ''pattern outside the fragment'')
      | Some atoms \<Rightarrow> Inr (rxSearch atoms s))"

section \<open>The loader script of the asynchronous strategy\<close>

text \<open>
  \<open>_getDepFileContentInternal\<close> emits, for \<open>loadAsync\<close>, a script whose state is the
  counter \<open>loadedIndex\<close> and the array \<open>scriptTexts\<close>, one slot per dependency: a slot is
  \<open>undefined\<close> (\<open>None\<close>) until its fetch completes, then \<open>null\<close> (\<open>Some None\<close>) or the
  fetched text. The browser runs the completion callbacks one after the other, so a run
  of the script is the list of its completions. Beside the two variables the model
  records what the script does: \<open>headElement\<close> is the list of the script elements
  appended to the head, and \<open>trace\<close> is the list, in the order in which the script
  makes them, of its calls of \<open>writeScript\<close> (index and text) and of
  \<open>window.onGoogleClosureSourceLoad\<close>. The parameter \<open>hook\<close> says whether that global
  is a function when the script tests it, given what the script has done until then
  (an injected script runs at once and may define the global). The script returns at
  once when the document has no head element; the model is of a document that has
  one, and of a browser where \<open>appendChild\<close> on a script element does not throw.
\<close>

type_synonym dep = "string \<times> bool"

datatype Action = WriteScript nat "string option" | CompletionHook

record Loader =
  loadedIndex :: nat
  scriptTexts :: "string option option list"
  headElement :: "string list"
  trace :: "Action list"

definition writeScript :: "string option \<Rightarrow> string \<Rightarrow> bool \<Rightarrow> string list \<Rightarrow> string list" where
  "writeScript scriptText src isModule children =
     (case scriptText of
        None \<Rightarrow> children
      | Some t \<Rightarrow>
          if t = [] then children
          else children @ [if isModule
                     then ''goog.loadModule(function(exports) {'' @ [CHR 0x22] @ ''use strict''
                            @ [CHR 0x22] @ '';'' @ t @ [CHR 0x0A] @ '';return exports'' @ ''});''
                            @ [CHR 0x0A] @ ''//# sourceURL='' @ src @ [CHR 0x0A]
                     else t @ [CHR 0x0A] @ ''//# sourceURL='' @ src])"

text \<open>
  Reading and writing a slot. A read beyond the length of a JavaScript array is
  \<open>undefined\<close>; a write beyond it extends the array with holes.
\<close>

definition slotAt :: "'a option list \<Rightarrow> nat \<Rightarrow> 'a option" where
  "slotAt xs i = (if i < length xs then xs ! i else None)"

definition setSlot :: "'a option list \<Rightarrow> nat \<Rightarrow> 'a \<Rightarrow> 'a option list" where
  "setSlot xs i v =
     (if i < length xs then xs[i := Some v] else xs @ replicate (i - length xs) None @ [Some v])"

function writeNextScript :: "(Action list \<Rightarrow> bool) \<Rightarrow> dep list \<Rightarrow> Loader \<Rightarrow> Loader" where
  "writeNextScript hook deps st =
     (if loadedIndex st \<ge> length deps
      then (if hook (trace st) then st\<lparr>trace := trace st @ [CompletionHook]\<rparr> else st)
      else (case slotAt (scriptTexts st) (loadedIndex st) of
              None \<Rightarrow> st
            | Some scriptText \<Rightarrow>
                writeNextScript hook deps
                  (st\<lparr>headElement :=
                        writeScript scriptText (fst (deps ! loadedIndex st))
                          (snd (deps ! loadedIndex st)) (headElement st),
                      trace := trace st @ [WriteScript (loadedIndex st) scriptText],
                      loadedIndex := loadedIndex st + 1\<rparr>)))"
  by pat_completeness auto
termination
  by (relation "measure (\<lambda>(hook, deps, st). length deps - loadedIndex st)") auto

declare writeNextScript.simps [simp del]

text \<open>
  The callback of \<open>xhr.onreadystatechange\<close> at \<open>readyState\<close> 4 computes the text handed
  to the loader callback, which stores it and calls the writer.
\<close>

definition responseOf :: "nat \<Rightarrow> string \<Rightarrow> string option" where
  "responseOf status responseText =
     (if 400 > status \<and> responseText \<noteq> [] then Some responseText else None)"

record Completion =
  index :: nat
  status :: nat
  responseText :: string

definition onLoad :: "(Action list \<Rightarrow> bool) \<Rightarrow> dep list \<Rightarrow> Loader \<Rightarrow> Completion \<Rightarrow> Loader" where
  "onLoad hook deps st ev =
     writeNextScript hook deps
       (st\<lparr>scriptTexts :=
             setSlot (scriptTexts st) (index ev) (responseOf (status ev) (responseText ev))\<rparr>)"

definition startLoader :: "dep list \<Rightarrow> Loader" where
  "startLoader deps =
     \<lparr>loadedIndex = 0, scriptTexts = replicate (length deps) None, headElement = [],
      trace = []\<rparr>"

definition runLoader :: "(Action list \<Rightarrow> bool) \<Rightarrow> dep list \<Rightarrow> Completion list \<Rightarrow> Loader" where
  "runLoader hook deps evs = foldl (onLoad hook deps) (startLoader deps) evs"

section \<open>\<open>ModuleDepsWriter\<close>\<close>

text \<open>
  The writer, reduced to what \<open>_getDepFileContent\<close>, \<open>_createDepFiles\<close> and \<open>build\<close>
  read. The results of \<open>JSON.stringify\<close> on the defines map and on the two graphs of
  the parser are fields of the writer. The cache collaborator is present or not; when
  present it is identified with what its \<open>save\<close> does in this run: it calls back
  without an error, calls back with an error, or throws.

  A module is its name, its dependencies (path and \<open>isModule\<close> flag), its sub-modules in
  order, and its optional wrapper. A wrapper is called with the writer and the module
  it belongs to; in the model it is a function of the writer. Whether a module has a
  parent is an argument of the functions below: the root module has none, every
  sub-module has one.

  What the writer takes from Node and from \<open>utils\<close> is collected in \<open>Env\<close>: the JSON
  texts computed from the dependency list with \<open>path\<close> and \<open>JSON.stringify\<close> (\<open>files\<close>
  and \<open>depsArr\<close>), the text of the loader function for the chosen strategy, and the
  outcome of \<open>utils.writeFile\<close>, which may depend on the writes attempted before.
\<close>

datatype SaveOutcome = SaveDone | SaveFailed Error | SaveThrew Error

record Writer =
  loadAsync :: bool
  cache :: "SaveOutcome option"
  jsonDefines :: string
  jsonModuleInfo :: string
  jsonModuleUris :: string
  productionUri :: string
  outputPathPrefix :: string

datatype JsModule =
  JsModule (name: string) (getDeps: "dep list") (getSubModules: "JsModule list")
    (getWrapper: "(Writer \<Rightarrow> string) option")

record Env =
  filesJson :: "Writer \<Rightarrow> string \<Rightarrow> dep list \<Rightarrow> string"
  depsArrJson :: "Writer \<Rightarrow> string \<Rightarrow> dep list \<Rightarrow> string"
  loaderSource :: "bool \<Rightarrow> string"
  writeFile :: "(string \<times> string) list \<Rightarrow> string \<Rightarrow> string \<Rightarrow> Error option"

text \<open>
  \<open>String.prototype.replace\<close> with a global regular expression of literal characters
  and a replacement string. In the replacement \<open>$$\<close> stands for \<open>$\<close>, \<open>$&\<close> for the
  match, \<open>$`\<close> for the text before the match and \<open>$'\<close> for the text after it; there is
  no capture group, so every other \<open>$\<close> stands for itself.
\<close>

fun getSubstitution :: "string \<Rightarrow> string \<Rightarrow> string \<Rightarrow> string \<Rightarrow> string" where
  "getSubstitution matched preceding following [] = []"
| "getSubstitution matched preceding following [c] = [c]"
| "getSubstitution matched preceding following (c # d # cs) =
     (if c = CHR ''$'' then
        (if d = CHR ''$'' then CHR ''$'' # getSubstitution matched preceding following cs
         else if d = CHR ''&'' then matched @ getSubstitution matched preceding following cs
         else if d = CHR 0x60 then preceding @ getSubstitution matched preceding following cs
         else if d = CHR 0x27 then following @ getSubstitution matched preceding following cs
         else c # getSubstitution matched preceding following (d # cs))
      else c # getSubstitution matched preceding following (d # cs))"

function replaceFrom :: "string \<Rightarrow> string \<Rightarrow> string \<Rightarrow> string \<Rightarrow> string" where
  "replaceFrom pat rep preceding [] = []"
| "replaceFrom pat rep preceding (c # s) =
     (if pat \<noteq> [] \<and> take (length pat) (c # s) = pat
      then getSubstitution pat preceding (drop (length pat) (c # s)) rep
             @ replaceFrom pat rep (preceding @ pat) (drop (length pat) (c # s))
      else c # replaceFrom pat rep (preceding @ [c]) s)"
  by pat_completeness auto
termination
  by (relation "measure (\<lambda>(pat, rep, preceding, s). length s)") auto

definition replaceAll :: "string \<Rightarrow> string \<Rightarrow> string \<Rightarrow> string" where
  "replaceAll pat rep s = replaceFrom pat rep [] s"

definition getDepFileContentInternal :: "Env \<Rightarrow> Writer \<Rightarrow> bool \<Rightarrow> JsModule \<Rightarrow> string" where
  "getDepFileContentInternal env this hasParent module =
     (let result =
            (if hasParent then []
             else ''CLOSURE_DEFINES=%defines%;'' @ [CHR 0x0A]
                  @ ''CLOSURE_NO_DEPS=true;'' @ [CHR 0x0A]
                  @ ''MODULE_USE_DEBUG_MODE=true;'' @ [CHR 0x0A]
                  @ ''MODULE_INFO=%moduleInfo%;'' @ [CHR 0x0A]
                  @ ''MODULE_URIS=%moduleUris%;'' @ [CHR 0x0A, CHR 0x0A]);
          depsArr = depsArrJson env this (name module) (getDeps module)
      in result @ loaderSource env (loadAsync this) @ ''})('' @ depsArr @ '');'' @ [CHR 0x0A])"

definition getDepFileContent :: "Env \<Rightarrow> Writer \<Rightarrow> bool \<Rightarrow> JsModule \<Rightarrow> string" where
  "getDepFileContent env this hasParent module =
     (let files = filesJson env this (name module) (getDeps module);
          wrapper =
            (case getWrapper module of
               Some w \<Rightarrow> w this
             | None \<Rightarrow> getDepFileContentInternal env this hasParent module)
      in replaceAll ''%files%'' files
           (replaceAll ''%productionUri%'' (productionUri this)
             (replaceAll ''%name%'' (name module)
               (replaceAll ''%moduleUris%'' (jsonModuleUris this)
                 (replaceAll ''%moduleInfo%'' (jsonModuleInfo this)
                   (replaceAll ''%defines%'' (jsonDefines this) wrapper))))))"

text \<open>
  \<open>_createDepFiles\<close> with \<open>async.eachSeries\<close>: the sub-modules are visited one after
  the other, and the first error ends the series. The state is the list of the
  writes attempted so far, content and file name; the result is this list and the
  error passed to the callback, if any.
\<close>

fun createDepFiles ::
  "Env \<Rightarrow> Writer \<Rightarrow> bool \<Rightarrow> JsModule \<Rightarrow> (string \<times> string) list
    \<Rightarrow> (string \<times> string) list \<times> Error option"
and eachSeries ::
  "Env \<Rightarrow> Writer \<Rightarrow> JsModule list \<Rightarrow> (string \<times> string) list
    \<Rightarrow> (string \<times> string) list \<times> Error option" where
  "createDepFiles env this hasParent (JsModule n ds subs w) log =
     (let module = JsModule n ds subs w;
          content = getDepFileContent env this hasParent module;
          filename = outputPathPrefix this @ name module @ ''.js''
      in (case writeFile env log content filename of
            Some err \<Rightarrow> (log @ [(content, filename)], Some err)
          | None \<Rightarrow> eachSeries env this subs (log @ [(content, filename)])))"
| "eachSeries env this [] log = (log, None)"
| "eachSeries env this (subModule # rest) log =
     (case createDepFiles env this True subModule log of
        (log', Some err) \<Rightarrow> (log', Some err)
      | (log', None) \<Rightarrow> eachSeries env this rest log')"

text \<open>
  \<open>build\<close>, given what the parser passes to its callback: an error or the root module.
  The result collects what is printed with \<open>console.error\<close>, the writes attempted and
  what the caller's callback receives. The caller is assumed to pass a callback.
\<close>

record BuildResult =
  consoleErrors :: "Error list"
  writes :: "(string \<times> string) list"
  reported :: "Error option"

definition build :: "Env \<Rightarrow> Writer \<Rightarrow> Error + JsModule \<Rightarrow> BuildResult" where
  "build env this parsed =
     (case parsed of
        Inl err \<Rightarrow> \<lparr>consoleErrors = [], writes = [], reported = Some err\<rparr>
      | Inr rootModule \<Rightarrow>
          (let (logged, err) =
                 (case cache this of
                    None \<Rightarrow> ([], None)
                  | Some SaveDone \<Rightarrow> ([], None)
                  | Some (SaveFailed e) \<Rightarrow> ([e], None)
                  | Some (SaveThrew e) \<Rightarrow> ([], Some e))
           in (case err of
                 None \<Rightarrow>
                   (let (log, writeErr) = createDepFiles env this False rootModule []
                    in \<lparr>consoleErrors = logged, writes = log, reported = writeErr\<rparr>)
               | Some e \<Rightarrow> \<lparr>consoleErrors = logged, writes = [], reported = Some e\<rparr>)))"

section \<open>Notions used in the statements\<close>

subsection \<open>Identifier chains\<close>

text \<open>
  A chain token is an identifier or the punctuator \<open>.\<close>; every other token ends a
  chain. A completed chain of a token list is a maximal run of chain tokens with at
  least one identifier that is followed by a token ending it.
\<close>

definition isIdentifier :: "Token \<Rightarrow> bool" where
  "isIdentifier t = (tok_type t = ''Identifier'')"

definition isDot :: "Token \<Rightarrow> bool" where
  "isDot t = (tok_type t = ''Punctuator'' \<and> tok_value t = ''.'')"

definition chainToken :: "Token \<Rightarrow> bool" where
  "chainToken t = (isIdentifier t \<or> isDot t)"

definition identsOf :: "Token list \<Rightarrow> string list" where
  "identsOf ts = map tok_value (filter isIdentifier ts)"

definition truncated :: "string list \<Rightarrow> string list" where
  "truncated ids = takeWhile (\<lambda>s. s \<noteq> ''prototype'') ids"

definition completedChain :: "Token list \<Rightarrow> Token list \<Rightarrow> bool" where
  "completedChain ts chain =
     (\<exists>pre t post. ts = pre @ chain @ [t] @ post \<and> (pre = [] \<or> \<not> chainToken (last pre))
        \<and> list_all chainToken chain \<and> \<not> chainToken t \<and> identsOf chain \<noteq> [])"

definition trailing :: "Token list \<Rightarrow> Token list" where
  "trailing ts = rev (takeWhile chainToken (rev ts))"



subsection \<open>Resolution\<close>

text \<open>
  The namespaces a list of usages resolves to: for each usage the first provide of the
  list that matches it. A memo cache agrees with a provide list when every answer it
  holds is the answer the list gives, and it holds no empty provide.
\<close>

definition resolved :: "(string \<Rightarrow> string \<Rightarrow> bool) \<Rightarrow> string list \<Rightarrow> string list \<Rightarrow> string set" where
  "resolved matches provs us = {p. \<exists>u\<in>set us. find (\<lambda>q. matches q u) provs = Some p}"

definition cacheAgrees :: "(string \<Rightarrow> string \<Rightarrow> bool) \<Rightarrow> string list \<Rightarrow> cache \<Rightarrow> bool" where
  "cacheAgrees matches provs c =
     (\<forall>u. case c u of
            None \<Rightarrow> True
          | Some None \<Rightarrow> find (\<lambda>p. matches p u) provs = None
          | Some (Some p) \<Rightarrow> p \<noteq> [] \<and> find (\<lambda>q. matches q u) provs = Some p)"

definition codeUsages :: "SyntaxTree \<Rightarrow> string list" where
  "codeUsages tree = (case tokens tree of None \<Rightarrow> [] | Some toks \<Rightarrow> getFileIdsMap toks)"

definition docUsages :: "(string \<Rightarrow> string list) \<Rightarrow> SyntaxTree \<Rightarrow> string list" where
  "docUsages getTypes tree = (case comments tree of None \<Rightarrow> [] | Some cs \<Rightarrow> collectTypes getTypes cs)"

subsection \<open>The loader\<close>

text \<open>
  The calls of \<open>writeScript\<close> of a trace, in order; the head elements that a list of
  such calls appends; and the property of a trace that every call of the completion
  hook in it comes after the calls of \<open>writeScript\<close> for all the entries of the
  dependency list, in list order, and is followed by no call of \<open>writeScript\<close>.
\<close>

fun writesOf :: "Action list \<Rightarrow> (nat \<times> string option) list" where
  "writesOf [] = []"
| "writesOf (WriteScript i t # rest) = (i, t) # writesOf rest"
| "writesOf (CompletionHook # rest) = writesOf rest"

definition injected :: "dep list \<Rightarrow> (nat \<times> string option) list \<Rightarrow> string list" where
  "injected deps calls =
     foldl (\<lambda>children (i, t). writeScript t (fst (deps ! i)) (snd (deps ! i)) children) [] calls"

definition hookAfterWrites :: "(Action list \<Rightarrow> bool) \<Rightarrow> dep list \<Rightarrow> Action list \<Rightarrow> bool" where
  "hookAfterWrites hook deps acts =
     (\<forall>pre post. acts = pre @ CompletionHook # post \<longrightarrow>
        hook pre \<and> map fst (writesOf pre) = [0..<length deps] \<and> writesOf post = [])"

definition fromCompletion :: "Completion list \<Rightarrow> nat \<Rightarrow> string option \<Rightarrow> bool" where
  "fromCompletion evs i t =
     (\<exists>ev\<in>set evs. index ev = i \<and> t = responseOf (status ev) (responseText ev))"

definition loaderInv :: "(Action list \<Rightarrow> bool) \<Rightarrow> dep list \<Rightarrow> Loader \<Rightarrow> bool" where
  "loaderInv hook deps st =
     (length (scriptTexts st) = length deps \<and> loadedIndex st \<le> length deps
      \<and> map fst (writesOf (trace st)) = [0..<loadedIndex st]
      \<and> (\<forall>i<loadedIndex st. slotAt (scriptTexts st) i \<noteq> None)
      \<and> headElement st = injected deps (writesOf (trace st))
      \<and> (CompletionHook \<in> set (trace st) \<longrightarrow> loadedIndex st = length deps)
      \<and> hookAfterWrites hook deps (trace st))"

definition settled :: "(Action list \<Rightarrow> bool) \<Rightarrow> dep list \<Rightarrow> Loader \<Rightarrow> bool" where
  "settled hook deps st =
     ((loadedIndex st < length deps \<longrightarrow> slotAt (scriptTexts st) (loadedIndex st) = None)
      \<and> (hook (trace st) \<and> loadedIndex st = length deps \<longrightarrow> CompletionHook \<in> set (trace st)))"

definition sourced :: "Completion list \<Rightarrow> Loader \<Rightarrow> bool" where
  "sourced evs st =
     ((\<forall>j t. slotAt (scriptTexts st) j = Some t \<longrightarrow> fromCompletion evs j t)
      \<and> (\<forall>c\<in>set (writesOf (trace st)). fromCompletion evs (fst c) (snd c)))"

subsection \<open>The order of the artifacts\<close>

text \<open>
  The modules of a tree, each before its sub-modules and these in their order, with
  the flag that says whether the module has a parent; the artifact of a module; and
  writing a list of artifacts one after the other until a write fails.
\<close>

fun preorder :: "bool \<Rightarrow> JsModule \<Rightarrow> (bool \<times> JsModule) list" where
  "preorder hasParent (JsModule n ds subs w) =
     (hasParent, JsModule n ds subs w) # concat (map (preorder True) subs)"

definition artifact :: "Env \<Rightarrow> Writer \<Rightarrow> bool \<times> JsModule \<Rightarrow> string \<times> string" where
  "artifact env this pm =
     (getDepFileContent env this (fst pm) (snd pm), outputPathPrefix this @ name (snd pm) @ ''.js'')"

fun writeSeries ::
  "Env \<Rightarrow> (string \<times> string) list \<Rightarrow> (string \<times> string) list
    \<Rightarrow> (string \<times> string) list \<times> Error option" where
  "writeSeries env [] log = (log, None)"
| "writeSeries env (a # rest) log =
     (case writeFile env log (fst a) (snd a) of
        Some err \<Rightarrow> (log @ [a], Some err)
      | None \<Rightarrow> writeSeries env rest (log @ [a]))"

subsection \<open>Inputs of the examples\<close>

definition Identifier :: "string \<Rightarrow> Token" where
  "Identifier v = \<lparr>tok_type = ''Identifier'', tok_value = v\<rparr>"

definition Punctuator :: "string \<Rightarrow> Token" where
  "Punctuator v = \<lparr>tok_type = ''Punctuator'', tok_value = v\<rparr>"

definition exampleEnv :: "(string \<Rightarrow> bool) \<Rightarrow> Env" where
  "exampleEnv fails =
     \<lparr>filesJson = (\<lambda>this n ds. ''['' @ joinDot (map fst ds) @ '']''),
      depsArrJson = (\<lambda>this n ds. ''['' @ joinDot (map fst ds) @ '']''),
      loaderSource = (\<lambda>async. if async then ''(function(deps) {/*async*/'' else ''(function(deps) {/*sync*/''),
      writeFile = (\<lambda>log content filename. if fails filename then Some (Error ''EACCES'') else None)\<rparr>"

definition exampleWriter :: Writer where
  "exampleWriter =
     \<lparr>loadAsync = False, cache = None, jsonDefines = ''{}'', jsonModuleInfo = ''{}'',
      jsonModuleUris = ''{}'', productionUri = ''/js/'', outputPathPrefix = ''out/''\<rparr>"

section \<open>Properties of \<open>getFileIdsMap\<close>\<close>

lemma arrayIndexOf_nonneg: "arrayIndexOf xs v = - 1 \<or> 0 \<le> arrayIndexOf xs v"
  by (induction xs) (auto simp: Let_def)

lemma arrayIndexOf_take:
  "(if - 1 < arrayIndexOf xs v then take (nat (arrayIndexOf xs v)) xs else xs) = takeWhile (\<lambda>s. s \<noteq> v) xs"
proof (induction xs)
  case Nil
  then show ?case by simp
next
  case (Cons x xs)
  show ?case
  proof (cases "x = v")
    case True
    then show ?thesis by simp
  next
    case False
    have "arrayIndexOf xs v = - 1 \<or> 0 \<le> arrayIndexOf xs v" by (rule arrayIndexOf_nonneg)
    then show ?thesis
    proof
      assume a: "arrayIndexOf xs v = - 1"
      with Cons False show ?thesis by (simp add: Let_def)
    next
      assume a: "0 \<le> arrayIndexOf xs v"
      with Cons False show ?thesis by (simp add: Let_def nat_add_distrib)
    qed
  qed
qed

lemma idsStep_chain:
  "chainToken t \<Longrightarrow> idsStep (m, ids) t = (m, ids @ identsOf [t])"
  by (auto simp: idsStep_def chainToken_def isIdentifier_def isDot_def identsOf_def)

lemma proto_inherited: "''__proto__'' \<in> set objectPrototypeKeys"
  by (simp add: objectPrototypeKeys_def)

lemma set_setKey: "k \<noteq> ''__proto__'' \<Longrightarrow> set (setKey k m) = insert k (set m)"
  by (auto simp: setKey_def)

lemma set_setKey_subset: "set (setKey k m) \<subseteq> insert k (set m)"
  by (auto simp: setKey_def)

lemma set_setKey_fresh: "\<not> truthyAt m k \<Longrightarrow> set (setKey k m) = insert k (set m)"
  using proto_inherited by (auto simp: setKey_def truthyAt_def)

lemma set_setKey_if: "set (setKey k m) = (if k = ''__proto__'' then set m else insert k (set m))"
  by (auto simp: setKey_def)

lemma distinct_setKey: "distinct m \<Longrightarrow> distinct (setKey k m)"
  by (simp add: setKey_def)

lemma idsStep_terminator:
  "\<not> chainToken t \<Longrightarrow>
     idsStep (m, ids) t =
       (if ids = [] then m
        else if truthyAt m (joinDot (truncated ids)) then m
        else setKey (joinDot (truncated ids)) m, [])"
  using arrayIndexOf_take [of ids "''prototype''"]
  by (auto simp: idsStep_def chainToken_def isIdentifier_def isDot_def truncated_def Let_def)

lemma foldl_idsStep_chain:
  "list_all chainToken ts \<Longrightarrow> foldl idsStep (m, ids) ts = (m, ids @ identsOf ts)"
proof (induction ts arbitrary: ids)
  case Nil
  then show ?case by (simp add: identsOf_def)
next
  case (Cons t ts)
  then show ?case by (simp add: idsStep_chain) (simp add: identsOf_def)
qed

lemma getFileIdsMap_tail: "list_all chainToken tail \<Longrightarrow> getFileIdsMap (ts @ tail) = getFileIdsMap ts"
  by (cases "foldl idsStep ([], []) ts") (simp add: getFileIdsMap_def foldl_idsStep_chain)

lemma trailing_snoc: "trailing (ts @ [t]) = (if chainToken t then trailing ts @ [t] else [])"
  by (simp add: trailing_def)

lemma trailing_all: "list_all chainToken (trailing ts)"
  unfolding trailing_def list_all_iff using set_takeWhileD by fastforce

lemma trailing_split:
  "\<exists>pre. ts = pre @ trailing ts \<and> (pre = [] \<or> \<not> chainToken (last pre))"
proof -
  let ?pre = "rev (dropWhile chainToken (rev ts))"
  have "ts = ?pre @ trailing ts"
    unfolding trailing_def by (metis rev_append rev_rev_ident takeWhile_dropWhile_id)
  moreover have "?pre = [] \<or> \<not> chainToken (last ?pre)"
    by (cases "dropWhile chainToken (rev ts) = []") (simp_all add: last_rev hd_dropWhile)
  ultimately show ?thesis by blast
qed

lemma trailing_unique:
  assumes "list_all chainToken chain" "pre = [] \<or> \<not> chainToken (last pre)"
  shows "trailing (pre @ chain) = chain"
proof -
  have a: "takeWhile chainToken (rev chain @ rev pre) = rev chain @ takeWhile chainToken (rev pre)"
    by (rule takeWhile_append2) (use assms(1) in \<open>simp add: list_all_iff\<close>)
  have "takeWhile chainToken (rev pre) = []"
  proof (cases pre rule: rev_cases)
    case Nil
    then show ?thesis by simp
  next
    case (snoc ys y)
    with assms(2) show ?thesis by simp
  qed
  with a show ?thesis
    by (simp add: trailing_def)
qed

lemma completedChain_snoc:
  "completedChain (ts @ [t]) chain \<longleftrightarrow>
     completedChain ts chain \<or> (\<not> chainToken t \<and> chain = trailing ts \<and> identsOf chain \<noteq> [])"
proof
  assume "completedChain (ts @ [t]) chain"
  then obtain pre t' post where d: "ts @ [t] = pre @ chain @ [t'] @ post"
    "pre = [] \<or> \<not> chainToken (last pre)" "list_all chainToken chain" "\<not> chainToken t'"
    "identsOf chain \<noteq> []"
    unfolding completedChain_def by blast
  show "completedChain ts chain \<or> (\<not> chainToken t \<and> chain = trailing ts \<and> identsOf chain \<noteq> [])"
  proof (cases post rule: rev_cases)
    case Nil
    with d(1) have "ts = pre @ chain" "t = t'" by auto
    with d trailing_unique [of chain pre] show ?thesis by simp
  next
    case (snoc post' x)
    with d(1) have "ts = pre @ chain @ [t'] @ post'"
      by (metis append_assoc butlast_snoc)
    with d show ?thesis unfolding completedChain_def by blast
  qed
next
  assume "completedChain ts chain \<or> (\<not> chainToken t \<and> chain = trailing ts \<and> identsOf chain \<noteq> [])"
  then show "completedChain (ts @ [t]) chain"
  proof
    assume "completedChain ts chain"
    then obtain pre t' post where d: "ts = pre @ chain @ [t'] @ post"
      "pre = [] \<or> \<not> chainToken (last pre)" "list_all chainToken chain" "\<not> chainToken t'"
      "identsOf chain \<noteq> []"
      unfolding completedChain_def by blast
    then have "ts @ [t] = pre @ chain @ [t'] @ (post @ [t])" by simp
    with d show ?thesis unfolding completedChain_def by blast
  next
    assume a: "\<not> chainToken t \<and> chain = trailing ts \<and> identsOf chain \<noteq> []"
    obtain pre where p: "ts = pre @ trailing ts" "pre = [] \<or> \<not> chainToken (last pre)"
      using trailing_split by blast
    then have "ts @ [t] = pre @ trailing ts @ [t] @ []" by simp
    with a p trailing_all [of ts] show ?thesis unfolding completedChain_def by blast
  qed
qed

lemma not_completedChain_Nil: "\<not> completedChain [] chain"
  by (simp add: completedChain_def)

lemma foldl_idsStep_inv:
  "snd (foldl idsStep ([], []) ts) = identsOf (trailing ts) \<and>
   set (fst (foldl idsStep ([], []) ts)) =
     {joinDot (truncated (identsOf chain)) | chain. completedChain ts chain}
       - set objectPrototypeKeys"
proof (induction ts rule: rev_induct)
  case Nil
  then show ?case by (simp add: trailing_def identsOf_def not_completedChain_Nil)
next
  case (snoc t ts)
  obtain m ids where st: "foldl idsStep ([], []) ts = (m, ids)" by (cases "foldl idsStep ([], []) ts")
  with snoc have ih: "ids = identsOf (trailing ts)"
    "set m = {joinDot (truncated (identsOf chain)) | chain. completedChain ts chain}
               - set objectPrototypeKeys" by simp_all
  show ?case
  proof (cases "chainToken t")
    case True
    then show ?thesis
      using st ih by (simp add: idsStep_chain trailing_snoc completedChain_snoc identsOf_def)
  next
    case False
    show ?thesis
    proof (cases "ids = []")
      case True
      with False st ih show ?thesis
        by (auto simp: idsStep_terminator trailing_snoc completedChain_snoc identsOf_def)
    next
      case ne: False
      let ?k = "joinDot (truncated ids)"
      have new: "{joinDot (truncated (identsOf chain)) | chain. completedChain (ts @ [t]) chain}
          = insert ?k {joinDot (truncated (identsOf chain)) | chain. completedChain ts chain}"
        using False ne ih(1) by (auto simp: completedChain_snoc)
      show ?thesis
      proof (cases "truthyAt m ?k")
        case True
        then have "?k \<in> set m \<or> ?k \<in> set objectPrototypeKeys" by (simp add: truthyAt_def)
        with False ne st ih(2) new True show ?thesis
          by (auto simp: idsStep_terminator trailing_snoc identsOf_def)
      next
        case f: False
        then have "?k \<notin> set objectPrototypeKeys" by (simp add: truthyAt_def)
        with False ne st ih(2) new f set_setKey_fresh [OF f] show ?thesis
          by (auto simp: idsStep_terminator trailing_snoc identsOf_def)
      qed
    qed
  qed
qed

lemma getFileIdsMap_iff:
  "x \<in> set (getFileIdsMap ts) \<longleftrightarrow>
     x \<notin> set objectPrototypeKeys
     \<and> (\<exists>chain. completedChain ts chain \<and> x = joinDot (truncated (identsOf chain)))"
  using foldl_idsStep_inv [of ts] by (auto simp: getFileIdsMap_def)

lemma getFileIdsMap_not_inherited: "x \<in> set (getFileIdsMap ts) \<Longrightarrow> x \<notin> set objectPrototypeKeys"
  by (simp add: getFileIdsMap_iff)


section \<open>Properties of matching and of the registry\<close>

lemma stringIndexOf_range: "stringIndexOf s p = - 1 \<or> 0 \<le> stringIndexOf s p"
  by (induction s) (auto simp: Let_def)

lemma stringIndexOf_zero: "0 = stringIndexOf s p \<longleftrightarrow> take (length p) s = p"
proof (cases s)
  case Nil
  then show ?thesis by auto
next
  case (Cons c s')
  have "stringIndexOf s' p = - 1 \<or> 0 \<le> stringIndexOf s' p" by (rule stringIndexOf_range)
  then show ?thesis using Cons by (auto simp: Let_def)
qed

lemma take_prefix_iff: "take (length p) u = p \<longleftrightarrow> (\<exists>rest. u = p @ rest)"
  by (metis append_eq_conv_conj append_take_drop_id)

lemma jsMatches_iff:
  "jsMatches p u \<longleftrightarrow>
     (\<exists>rest. u = p @ rest \<and>
        (case rest of [] \<Rightarrow> True | c # _ \<Rightarrow> c \<notin> set wordChars \<and> c \<noteq> CHR ''$''))"
proof
  assume m: "jsMatches p u"
  then obtain rest where r: "u = p @ rest"
    unfolding jsMatches_def stringIndexOf_zero take_prefix_iff by blast
  with m show "\<exists>rest. u = p @ rest \<and>
        (case rest of [] \<Rightarrow> True | c # _ \<Rightarrow> c \<notin> set wordChars \<and> c \<noteq> CHR ''$'')"
    by (cases rest) (auto simp: jsMatches_def charAt_def testNonWordDollar_def nth_append)
next
  assume "\<exists>rest. u = p @ rest \<and>
        (case rest of [] \<Rightarrow> True | c # _ \<Rightarrow> c \<notin> set wordChars \<and> c \<noteq> CHR ''$'')"
  then obtain rest where r: "u = p @ rest"
     "(case rest of [] \<Rightarrow> True | c # _ \<Rightarrow> c \<notin> set wordChars \<and> c \<noteq> CHR ''$'')" by blast
  have "0 = stringIndexOf u p" using r(1) stringIndexOf_zero take_prefix_iff by blast
  with r show "jsMatches p u"
    by (cases rest) (auto simp: jsMatches_def charAt_def testNonWordDollar_def nth_append)
qed















lemma everyProvide_find: "everyProvide matches u provs = find (\<lambda>p. matches p u) provs"
  by (induction provs) auto

lemma find_Some_in: "find P xs = Some x \<Longrightarrow> x \<in> set xs"
  by (induction xs) (auto split: if_splits)


lemma find_desc:
  assumes "sorted_wrt (\<lambda>a b. b < a) (provs :: 'a::linorder list)"
  shows "find P provs = Some p \<longleftrightarrow> p \<in> set provs \<and> P p \<and> (\<forall>q\<in>set provs. P q \<longrightarrow> q \<le> p)"
  using assms
proof (induction provs)
  case Nil
  then show ?case by simp
next
  case (Cons a provs)
  then have s: "sorted_wrt (\<lambda>a b. b < a) provs" and le: "\<forall>q\<in>set provs. q < a"
    by auto
  show ?case
  proof (cases "P a")
    case True
    then show ?thesis using le by (auto intro: antisym)
  next
    case False
    then show ?thesis using Cons.IH [OF s] le by auto
  qed
qed


lemma set_insertBy: "set (insertBy cmp x ys) = insert x (set ys)"
  by (induction ys) auto

lemma set_sortBy: "set (sortBy cmp xs) = set xs"
  unfolding sortBy_def by (induction xs) (simp_all add: set_insertBy)

lemma distinct_insertBy: "x \<notin> set ys \<Longrightarrow> distinct ys \<Longrightarrow> distinct (insertBy cmp x ys)"
  by (induction ys) (auto simp: set_insertBy)

lemma distinct_sortBy: "distinct xs \<Longrightarrow> distinct (sortBy cmp xs)"
proof (induction xs)
  case Nil
  then show ?case by (simp add: sortBy_def)
next
  case (Cons x xs)
  then have "x \<notin> set (sortBy cmp xs)" "distinct (sortBy cmp xs)" by (simp_all add: set_sortBy)
  then have "distinct (insertBy cmp x (sortBy cmp xs))" by (rule distinct_insertBy)
  then show ?case by (simp add: sortBy_def)
qed

lemma insertBy_desc:
  "sorted_wrt (\<lambda>a b. b \<le> a) ys \<Longrightarrow> sorted_wrt (\<lambda>a b. b \<le> a) (insertBy compareDesc x ys)"
  by (induction ys) (auto simp: compareDesc_def set_insertBy)

lemma sortBy_desc: "sorted_wrt (\<lambda>a b. b \<le> a) (sortBy compareDesc xs)"
  unfolding sortBy_def by (induction xs) (simp_all add: insertBy_desc)

lemma strict_desc:
  "sorted_wrt (\<lambda>a b. b \<le> a) (xs :: string list) \<Longrightarrow> distinct xs \<Longrightarrow> sorted_wrt (\<lambda>a b. b < a) xs"
  by (induction xs) (auto simp: less_le)

lemma distinct_setKeys: "distinct m \<Longrightarrow> distinct (foldl (\<lambda>m' k. setKey k m') m ks)"
  by (induction ks arbitrary: m) (simp_all add: distinct_setKey)

lemma distinct_collect_from:
  "distinct m \<Longrightarrow>
     distinct (foldl (\<lambda>m jsSource. foldl (\<lambda>m' provide. setKey provide m') m (provides jsSource)) m srcs)"
  by (induction srcs arbitrary: m) (simp_all add: distinct_setKeys)

lemma distinct_collectProvides: "distinct (collectProvides srcs)"
  unfolding collectProvides_def by (rule distinct_collect_from) simp

lemma distinct_exclude_from:
  "distinct m \<Longrightarrow>
     distinct (foldl (\<lambda>m' provide. if truthyAt m' provide then deleteKey provide m' else m') m xs)"
  by (induction xs arbitrary: m) (simp_all add: deleteKey_def)

lemma distinct_excludeFrom: "distinct m \<Longrightarrow> distinct (excludeFrom ex m)"
  by (cases ex) (simp_all add: excludeFrom_def distinct_exclude_from)

lemma provideRegistry_desc: "sorted_wrt (\<lambda>a b. b < a) (provideRegistry this jsSources externSources)"
  unfolding provideRegistry_def
  by (intro strict_desc sortBy_desc distinct_sortBy distinct_excludeFrom distinct_collectProvides)

text \<open>The assignment \<open>providesMap['__proto__'] = 1\<close> creates no key.\<close>

lemma proto_setKeys:
  "''__proto__'' \<notin> set m \<Longrightarrow> ''__proto__'' \<notin> set (foldl (\<lambda>m' k. setKey k m') m ks)"
  by (induction ks arbitrary: m) (simp_all add: set_setKey_if)

lemma proto_collect_from:
  "''__proto__'' \<notin> set m \<Longrightarrow>
     ''__proto__'' \<notin> set (foldl (\<lambda>m jsSource. foldl (\<lambda>m' provide. setKey provide m') m (provides jsSource)) m srcs)"
  by (induction srcs arbitrary: m) (simp_all add: proto_setKeys)

lemma set_exclude_from:
  "set (foldl (\<lambda>m' provide. if truthyAt m' provide then deleteKey provide m' else m') m xs) \<subseteq> set m"
proof (induction xs arbitrary: m)
  case Nil
  then show ?case by simp
next
  case (Cons x xs)
  have "set (if truthyAt m x then deleteKey x m else m) \<subseteq> set m"
    by (auto simp: deleteKey_def)
  with Cons.IH [of "if truthyAt m x then deleteKey x m else m"] show ?case by auto
qed

lemma proto_not_provided: "''__proto__'' \<notin> set (provideRegistry this jsSources externSources)"
proof -
  have "''__proto__'' \<notin> set (collectProvides (jsSources @ externSources))"
    unfolding collectProvides_def by (rule proto_collect_from) simp
  moreover have "set (excludeFrom (excludeProvides this) (collectProvides (jsSources @ externSources)))
      \<subseteq> set (collectProvides (jsSources @ externSources))"
    by (cases "excludeProvides this") (simp_all add: excludeFrom_def set_exclude_from)
  ultimately show ?thesis unfolding provideRegistry_def set_sortBy by blast
qed

section \<open>Properties of the memo caches\<close>

lemma cacheAgrees_empty: "cacheAgrees matches provs Map.empty"
  by (simp add: cacheAgrees_def)

lemma resolved_Nil: "resolved matches provs [] = {}"
  by (simp add: resolved_def)

lemma resolved_Cons:
  "resolved matches provs (u # us) =
     (case find (\<lambda>q. matches q u) provs of None \<Rightarrow> {} | Some p \<Rightarrow> {p}) \<union> resolved matches provs us"
  by (auto simp: resolved_def split: option.splits)

lemma cacheGet_own:
  "u \<notin> set objectPrototypeKeys \<Longrightarrow>
     cacheGet c u = (case c u of None \<Rightarrow> Undefined | Some None \<Rightarrow> Null | Some (Some p) \<Rightarrow> Str p)"
  by (simp add: cacheGet_def split: option.splits)

lemma resolveIds_set_gen:
  assumes "\<And>u. case c u of
            None \<Rightarrow> True
          | Some None \<Rightarrow> find (\<lambda>p. matches p u) provs = None
          | Some (Some p) \<Rightarrow> find (\<lambda>q. matches q u) provs = Some p \<and> (p \<noteq> [] \<or> p \<in> set m)"
    and "\<forall>u\<in>set ids. u \<notin> set objectPrototypeKeys"
  shows "set (fst (resolveIds matches provs ids c m)) =
           set m \<union> (resolved matches provs ids - {''__proto__''})"
  using assms
proof (induction ids arbitrary: c m)
  case Nil
  then show ?case by (simp add: resolved_Nil)
next
  case (Cons u us)
  note inv = Cons.prems(1)
  from Cons.prems(2) have nu: "u \<notin> set objectPrototypeKeys"
    and nus: "\<forall>u\<in>set us. u \<notin> set objectPrototypeKeys" by simp_all
  note get = cacheGet_own [OF nu, of c]
  show ?case
  proof (cases "c u")
    case None
    show ?thesis
    proof (cases "find (\<lambda>q. matches q u) provs")
      case n: None
      have "set (fst (resolveIds matches provs us (c(u \<mapsto> None)) m))
              = set m \<union> (resolved matches provs us - {''__proto__''})"
      proof (rule Cons.IH [OF _ nus])
        fix v
        show "case (c(u \<mapsto> None)) v of
            None \<Rightarrow> True
          | Some None \<Rightarrow> find (\<lambda>p. matches p v) provs = None
          | Some (Some p) \<Rightarrow> find (\<lambda>q. matches q v) provs = Some p \<and> (p \<noteq> [] \<or> p \<in> set m)"
          using inv [of v] n by (cases "v = u") simp_all
      qed
      with None n get show ?thesis by (simp add: everyProvide_find resolved_Cons)
    next
      case s: (Some p)
      have "set (fst (resolveIds matches provs us (c(u \<mapsto> Some p)) (setKey p m)))
              = set (setKey p m) \<union> (resolved matches provs us - {''__proto__''})"
      proof (rule Cons.IH [OF _ nus])
        fix v
        show "case (c(u \<mapsto> Some p)) v of
            None \<Rightarrow> True
          | Some None \<Rightarrow> find (\<lambda>p. matches p v) provs = None
          | Some (Some p') \<Rightarrow> find (\<lambda>q. matches q v) provs = Some p' \<and> (p' \<noteq> [] \<or> p' \<in> set (setKey p m))"
          using inv [of v] s by (cases "v = u") (auto simp: set_setKey_if split: option.splits)
      qed
      with None s get show ?thesis by (auto simp: everyProvide_find resolved_Cons set_setKey_if)
    qed
  next
    case (Some v)
    show ?thesis
    proof (cases v)
      case n: None
      with Some inv [of u] have f: "find (\<lambda>q. matches q u) provs = None" by simp
      have "set (fst (resolveIds matches provs us c m)) = set m \<union> (resolved matches provs us - {''__proto__''})"
        by (rule Cons.IH [OF inv nus])
      with Some n f get show ?thesis by (simp add: resolved_Cons)
    next
      case s: (Some p)
      with Some inv [of u] have f: "find (\<lambda>q. matches q u) provs = Some p" "p \<noteq> [] \<or> p \<in> set m"
        by simp_all
      show ?thesis
      proof (cases "p = []")
        case True
        have "set (fst (resolveIds matches provs us c m)) = set m \<union> (resolved matches provs us - {''__proto__''})"
          by (rule Cons.IH [OF inv nus])
        with Some s f True get show ?thesis by (auto simp: resolved_Cons)
      next
        case False
        have "set (fst (resolveIds matches provs us c (setKey p m)))
              = set (setKey p m) \<union> (resolved matches provs us - {''__proto__''})"
        proof (rule Cons.IH [OF _ nus])
          fix v
          show "case c v of
            None \<Rightarrow> True
          | Some None \<Rightarrow> find (\<lambda>p. matches p v) provs = None
          | Some (Some p') \<Rightarrow> find (\<lambda>q. matches q v) provs = Some p' \<and> (p' \<noteq> [] \<or> p' \<in> set (setKey p m))"
            using inv [of v] by (auto simp: set_setKey_if split: option.splits)
        qed
        with Some s f False get show ?thesis by (auto simp: resolved_Cons set_setKey_if)
      qed
    qed
  qed
qed

lemma resolveIds_set:
  assumes "cacheAgrees matches provs c" and "\<forall>u\<in>set ids. u \<notin> set objectPrototypeKeys"
  shows "set (fst (resolveIds matches provs ids c [])) = resolved matches provs ids - {''__proto__''}"
proof -
  have "set (fst (resolveIds matches provs ids c [])) =
          set [] \<union> (resolved matches provs ids - {''__proto__''})"
  proof (rule resolveIds_set_gen [OF _ assms(2)])
    fix u
    show "case c u of
            None \<Rightarrow> True
          | Some None \<Rightarrow> find (\<lambda>p. matches p u) provs = None
          | Some (Some p) \<Rightarrow> find (\<lambda>q. matches q u) provs = Some p \<and> (p \<noteq> [] \<or> p \<in> set [])"
      using assms(1) unfolding cacheAgrees_def by (auto split: option.splits dest: spec [of _ u])
  qed
  then show ?thesis by simp
qed

lemma resolveIds_distinct:
  "distinct m \<Longrightarrow> distinct (fst (resolveIds matches provs ids c m))"
  by (induction ids arbitrary: c m) (auto simp: distinct_setKey split: option.splits Looked.splits)

lemma resolveIds_cacheAgrees:
  assumes "[] \<notin> set provs" "cacheAgrees matches provs c"
  shows "cacheAgrees matches provs (snd (resolveIds matches provs ids c m))"
  using assms(2)
proof (induction ids arbitrary: c m)
  case Nil
  then show ?case by simp
next
  case (Cons u us)
  show ?case
  proof (cases "cacheGet c u")
    case Undefined
    then have cu: "c u = None" by (auto simp: cacheGet_def split: option.splits if_splits)
    show ?thesis
    proof (cases "find (\<lambda>q. matches q u) provs")
      case n: None
      have a: "cacheAgrees matches provs (c(u \<mapsto> None))"
        using Cons.prems n unfolding cacheAgrees_def by auto
      have "resolveIds matches provs (u # us) c m = resolveIds matches provs us (c(u \<mapsto> None)) m"
        using Undefined n by (simp add: everyProvide_find)
      then show ?thesis using Cons.IH [OF a] by (simp only:)
    next
      case s: (Some p)
      then have "p \<noteq> []" using find_Some_in assms(1) by fastforce
      with s have a: "cacheAgrees matches provs (c(u \<mapsto> Some p))"
        using Cons.prems unfolding cacheAgrees_def by auto
      have "resolveIds matches provs (u # us) c m
              = resolveIds matches provs us (c(u \<mapsto> Some p)) (setKey p m)"
        using Undefined s by (simp add: everyProvide_find)
      then show ?thesis using Cons.IH [OF a] by (simp only:)
    qed
  next
    case Null
    with Cons show ?thesis by simp
  next
    case (Str p)
    with Cons show ?thesis by simp
  next
    case (Member k)
    with Cons show ?thesis by simp
  qed
qed

lemma truthyAt_setKeys:
  "truthyAt (foldl (\<lambda>m k. setKey k m) m0 ks) p \<longleftrightarrow> p \<in> set ks \<or> truthyAt m0 p"
proof (induction ks arbitrary: m0)
  case Nil
  then show ?case by simp
next
  case (Cons k ks)
  have "truthyAt (setKey k m0) p \<longleftrightarrow> p = k \<or> truthyAt m0 p"
    by (auto simp: truthyAt_def set_setKey_if objectPrototypeKeys_def)
  then show ?case by (auto simp: Cons.IH)
qed

lemma getWrongRequiresInFile_tree:
  assumes "syntaxTree src = Some tree"
  shows "getWrongRequiresInFile gt search this src provs =
     (let r1 = resolveIds jsMatches provs (codeUsages tree) (jsCache this) [];
          r2 = resolveDocIds search provs (docUsages gt tree) (docCache this) [];
          this' = this\<lparr>docCache := snd r2, jsCache := snd r1\<rparr>
      in (case fst r2 of
            Inl e \<Rightarrow> (Inl e, this')
          | Inr docs \<Rightarrow>
              (Inr \<lparr>missingRequires =
                      sort (filter (\<lambda>p. p \<notin> set (provides src @ requires src)
                                          \<and> p \<notin> set objectPrototypeKeys) (fst r1)),
                    unnecessaryRequires =
                      sort (filter (\<lambda>r. \<not> truthyAt (fst r1) r \<and> \<not> truthyAt docs r) (requires src))\<rparr>,
               this')))"
proof -
  have t: "\<And>p. truthyAt (foldl (\<lambda>m k. setKey k m) (foldl (\<lambda>m k. setKey k m) [] (provides src))
                          (requires src)) p
            \<longleftrightarrow> \<not> (p \<notin> set (provides src) \<and> p \<notin> set (requires src)
                     \<and> p \<notin> set objectPrototypeKeys)"
    unfolding truthyAt_setKeys by (auto simp: truthyAt_def)
  show ?thesis
    using assms
    by (cases "tokens tree"; cases "comments tree")
       (simp_all add: getWrongRequiresInFile_def codeUsages_def docUsages_def Let_def t
          split: prod.splits sum.splits)
qed

lemma codeUsages_not_inherited: "\<forall>u\<in>set (codeUsages tree). u \<notin> set objectPrototypeKeys"
  by (cases "tokens tree") (auto simp: codeUsages_def dest: getFileIdsMap_not_inherited)

lemma missing_set:
  assumes "syntaxTree jsSource = Some tree" "cacheAgrees jsMatches provs (jsCache this)"
    and "fst (getWrongRequiresInFile gt search this jsSource provs) = Inr res"
  shows "set (missingRequires res) =
           resolved jsMatches provs (codeUsages tree)
             - (set (provides jsSource) \<union> set (requires jsSource) \<union> set objectPrototypeKeys)"
proof -
  have r: "set (fst (resolveIds jsMatches provs (codeUsages tree) (jsCache this) []))
             = resolved jsMatches provs (codeUsages tree) - {''__proto__''}"
    using assms(2) codeUsages_not_inherited by (rule resolveIds_set)
  have p: "''__proto__'' \<in> set objectPrototypeKeys" by (simp add: objectPrototypeKeys_def)
  from assms(3) have "missingRequires res =
      sort (filter (\<lambda>p. p \<notin> set (provides jsSource @ requires jsSource)
                          \<and> p \<notin> set objectPrototypeKeys)
              (fst (resolveIds jsMatches provs (codeUsages tree) (jsCache this) [])))"
    unfolding getWrongRequiresInFile_tree [OF assms(1)] by (auto simp: Let_def split: sum.splits)
  then show ?thesis using r p by auto
qed

text \<open>
  A require named like an inherited member passes for used in every file: it is never
  in \<open>unnecessaryRequires\<close>.
\<close>

lemma inherited_require_never_unnecessary:
  assumes "fst (getWrongRequiresInFile gt search this src provs) = Inr res"
    and "r \<in> set objectPrototypeKeys"
  shows "r \<notin> set (unnecessaryRequires res)"
proof (cases "syntaxTree src")
  case None
  with assms(1) show ?thesis by (auto simp: getWrongRequiresInFile_def)
next
  case (Some tree)
  from assms(1) obtain used docs where
    "unnecessaryRequires res =
       sort (filter (\<lambda>r. \<not> truthyAt used r \<and> \<not> truthyAt docs r) (requires src))"
    unfolding getWrongRequiresInFile_tree [OF Some] by (auto simp: Let_def split: sum.splits)
  with assms(2) show ?thesis by (simp add: truthyAt_def)
qed

text \<open>
  A run of \<open>getWrongRequires\<close> starts with empty caches and checks every file with one
  provide list; when that list has no empty string, the cache of the code identifiers
  agrees with it before every file.
\<close>

lemma getWrongRequiresInFile_cacheAgrees:
  assumes "[] \<notin> set provs" and "cacheAgrees jsMatches provs (jsCache this)"
  shows "cacheAgrees jsMatches provs (jsCache (snd (getWrongRequiresInFile gt search this src provs)))"
proof (cases "syntaxTree src")
  case None
  with assms show ?thesis by (simp add: getWrongRequiresInFile_def)
next
  case (Some tree)
  then show ?thesis
    using resolveIds_cacheAgrees [OF assms(1) assms(2)]
    by (simp add: getWrongRequiresInFile_tree Let_def split: sum.splits)
qed

lemma checkSources_cacheAgrees:
  assumes "[] \<notin> set provs"
  shows "cacheAgrees jsMatches provs (jsCache this) \<Longrightarrow>
     cacheAgrees jsMatches provs (jsCache (snd (checkSources gt search provs srcs this maps)))"
proof (induction srcs arbitrary: this maps)
  case Nil
  then show ?case by simp
next
  case (Cons src srcs)
  obtain mm um where maps: "maps = (mm, um)" by (cases maps)
  obtain r this' where r: "getWrongRequiresInFile gt search this src provs = (r, this')"
    by (cases "getWrongRequiresInFile gt search this src provs")
  from getWrongRequiresInFile_cacheAgrees [OF assms Cons.prems, of gt search src] r
  have a: "cacheAgrees jsMatches provs (jsCache this')" by simp
  show ?case
  proof (cases r)
    case (Inl e)
    with r a show ?thesis unfolding maps by simp
  next
    case (Inr info)
    with r Cons.IH [OF a] show ?thesis unfolding maps by (simp add: Let_def)
  qed
qed

section \<open>Properties of the loader\<close>

lemma injected_snoc:
  "injected deps (calls @ [(i, t)]) = writeScript t (fst (deps ! i)) (snd (deps ! i)) (injected deps calls)"
  by (simp add: injected_def)

lemma writesOf_append: "writesOf (xs @ ys) = writesOf xs @ writesOf ys"
  by (induction xs rule: writesOf.induct) simp_all

lemma hookAfterWrites_no_hook: "CompletionHook \<notin> set acts \<Longrightarrow> hookAfterWrites hook deps acts"
  by (auto simp: hookAfterWrites_def)

lemma snoc_split:
  assumes "xs @ [a] = pre @ b # post"
  shows "(post = [] \<and> pre = xs \<and> a = b) \<or> (\<exists>post'. post = post' @ [a] \<and> xs = pre @ b # post')"
proof (cases post rule: rev_cases)
  case Nil
  with assms show ?thesis by simp
next
  case (snoc post' c)
  with assms have "xs @ [a] = (pre @ b # post') @ [c]" by simp
  then have "xs = pre @ b # post'" "a = c" by (simp_all only: append1_eq_conv)
  with snoc show ?thesis by simp
qed

lemma hookAfterWrites_hook:
  assumes "hookAfterWrites hook deps acts" "map fst (writesOf acts) = [0..<length deps]" "hook acts"
  shows "hookAfterWrites hook deps (acts @ [CompletionHook])"
  unfolding hookAfterWrites_def
proof (intro allI impI)
  fix pre post
  assume "acts @ [CompletionHook] = pre @ CompletionHook # post"
  from snoc_split [OF this]
  show "hook pre \<and> map fst (writesOf pre) = [0..<length deps] \<and> writesOf post = []"
  proof
    assume "post = [] \<and> pre = acts \<and> CompletionHook = CompletionHook"
    with assms(2,3) show ?thesis by simp
  next
    assume "\<exists>post'. post = post' @ [CompletionHook] \<and> acts = pre @ CompletionHook # post'"
    then obtain post' where p: "post = post' @ [CompletionHook]" "acts = pre @ CompletionHook # post'"
      by blast
    from assms(1) p(2)
    have "hook pre \<and> map fst (writesOf pre) = [0..<length deps] \<and> writesOf post' = []"
      unfolding hookAfterWrites_def by blast
    with p(1) show ?thesis by (simp add: writesOf_append)
  qed
qed

lemma writeNextScript_scriptTexts:
  "scriptTexts (writeNextScript hook deps st) = scriptTexts st"
proof (induction hook deps st rule: writeNextScript.induct)
  case (1 hook deps st)
  show ?case
  proof (cases "length deps \<le> loadedIndex st")
    case True
    then show ?thesis by (simp add: writeNextScript.simps [of hook deps st])
  next
    case False
    then show ?thesis using 1
      by (cases "slotAt (scriptTexts st) (loadedIndex st)")
         (simp_all add: writeNextScript.simps [of hook deps st])
  qed
qed

lemma writeNextScript_inv:
  "loaderInv hook deps st \<Longrightarrow>
     loaderInv hook deps (writeNextScript hook deps st) \<and> settled hook deps (writeNextScript hook deps st)"
proof (induction hook deps st rule: writeNextScript.induct)
  case (1 hook deps st)
  show ?case
  proof (cases "length deps \<le> loadedIndex st")
    case True
    with "1.prems" have eq: "loadedIndex st = length deps" by (simp add: loaderInv_def)
    show ?thesis
    proof (cases "hook (trace st)")
      case False
      with True have "writeNextScript hook deps st = st"
        by (simp add: writeNextScript.simps [of hook deps st])
      with True False "1.prems" show ?thesis by (simp add: settled_def)
    next
      case h: True
      from "1.prems" eq h have "hookAfterWrites hook deps (trace st @ [CompletionHook])"
        by (intro hookAfterWrites_hook) (simp_all add: loaderInv_def)
      moreover from True h
      have "writeNextScript hook deps st = st\<lparr>trace := trace st @ [CompletionHook]\<rparr>"
        by (simp add: writeNextScript.simps [of hook deps st])
      ultimately show ?thesis
        using "1.prems" eq by (simp add: loaderInv_def settled_def writesOf_append)
    qed
  next
    case False
    show ?thesis
    proof (cases "slotAt (scriptTexts st) (loadedIndex st)")
      case None
      with False "1.prems" show ?thesis
        by (auto simp: writeNextScript.simps [of hook deps st] loaderInv_def settled_def)
    next
      case (Some scriptText)
      let ?st = "st\<lparr>headElement :=
                        writeScript scriptText (fst (deps ! loadedIndex st))
                          (snd (deps ! loadedIndex st)) (headElement st),
                      trace := trace st @ [WriteScript (loadedIndex st) scriptText],
                      loadedIndex := loadedIndex st + 1\<rparr>"
      from "1.prems" False have nh: "CompletionHook \<notin> set (trace st)"
        by (auto simp: loaderInv_def)
      then have "hookAfterWrites hook deps (trace st @ [WriteScript (loadedIndex st) scriptText])"
        by (intro hookAfterWrites_no_hook) simp
      then have "loaderInv hook deps ?st"
        using "1.prems" False Some nh
        by (auto simp: loaderInv_def injected_snoc less_Suc_eq writesOf_append)
      from "1.IH" [OF _ Some this] False
      have "loaderInv hook deps (writeNextScript hook deps ?st) \<and> settled hook deps (writeNextScript hook deps ?st)"
        by simp
      moreover have "writeNextScript hook deps st = writeNextScript hook deps ?st"
        using False Some by (simp add: writeNextScript.simps [of hook deps st])
      ultimately show ?thesis by simp
    qed
  qed
qed

lemma writeNextScript_trace:
  "\<exists>more. trace (writeNextScript hook deps st) = trace st @ more"
proof (induction hook deps st rule: writeNextScript.induct)
  case (1 hook deps st)
  show ?case
  proof (cases "length deps \<le> loadedIndex st")
    case True
    then show ?thesis by (simp add: writeNextScript.simps [of hook deps st])
  next
    case False
    show ?thesis
    proof (cases "slotAt (scriptTexts st) (loadedIndex st)")
      case None
      with False show ?thesis by (simp add: writeNextScript.simps [of hook deps st])
    next
      case (Some scriptText)
      let ?st = "st\<lparr>headElement :=
                        writeScript scriptText (fst (deps ! loadedIndex st))
                          (snd (deps ! loadedIndex st)) (headElement st),
                      trace := trace st @ [WriteScript (loadedIndex st) scriptText],
                      loadedIndex := loadedIndex st + 1\<rparr>"
      from "1.IH" [OF _ Some] False
      obtain more where m: "trace (writeNextScript hook deps ?st) = trace ?st @ more" by auto
      have eq: "writeNextScript hook deps st = writeNextScript hook deps ?st"
        using False Some by (simp add: writeNextScript.simps [of hook deps st])
      have "trace (writeNextScript hook deps st)
              = trace st @ (WriteScript (loadedIndex st) scriptText # more)"
        unfolding eq m by simp
      then show ?thesis by blast
    qed
  qed
qed

lemma slotAt_setSlot:
  "i < length xs \<Longrightarrow> slotAt (setSlot xs i v) j = (if j = i then Some v else slotAt xs j)"
  by (auto simp: slotAt_def setSlot_def)

lemma length_setSlot: "i < length xs \<Longrightarrow> length (setSlot xs i v) = length xs"
  by (simp add: setSlot_def)

lemma onLoad_inv:
  assumes "index ev < length deps" "loaderInv hook deps st"
  shows "loaderInv hook deps (onLoad hook deps st ev) \<and> settled hook deps (onLoad hook deps st ev)"
proof -
  let ?st = "st\<lparr>scriptTexts :=
             setSlot (scriptTexts st) (index ev) (responseOf (status ev) (responseText ev))\<rparr>"
  have "loaderInv hook deps ?st"
    using assms by (auto simp: loaderInv_def slotAt_setSlot length_setSlot)
  then show ?thesis unfolding onLoad_def by (rule writeNextScript_inv)
qed

lemma onLoad_trace:
  "\<exists>more. trace (onLoad hook deps st ev) = trace st @ more"
  unfolding onLoad_def
  using writeNextScript_trace [of hook deps "st\<lparr>scriptTexts :=
             setSlot (scriptTexts st) (index ev) (responseOf (status ev) (responseText ev))\<rparr>"]
  by simp

lemma onLoad_slots:
  assumes "index ev < length deps" "length (scriptTexts st) = length deps"
  shows "slotAt (scriptTexts (onLoad hook deps st ev)) j =
           (if j = index ev then Some (responseOf (status ev) (responseText ev))
            else slotAt (scriptTexts st) j)"
  using assms by (simp add: onLoad_def writeNextScript_scriptTexts slotAt_setSlot)

lemma startLoader_inv: "loaderInv hook deps (startLoader deps)"
  by (simp add: loaderInv_def startLoader_def injected_def hookAfterWrites_def)

lemma runLoader_snoc: "runLoader hook deps (evs @ [ev]) = onLoad hook deps (runLoader hook deps evs) ev"
  by (simp add: runLoader_def)

lemma runLoader_inv:
  assumes "\<forall>ev\<in>set evs. index ev < length deps"
  shows "loaderInv hook deps (runLoader hook deps evs)
         \<and> (evs \<noteq> [] \<longrightarrow> settled hook deps (runLoader hook deps evs))
         \<and> (\<forall>j<length deps. slotAt (scriptTexts (runLoader hook deps evs)) j \<noteq> None \<longleftrightarrow> j \<in> index ` set evs)"
  using assms
proof (induction evs rule: rev_induct)
  case Nil
  then show ?case by (simp add: startLoader_inv runLoader_def) (simp add: startLoader_def slotAt_def)
next
  case (snoc ev evs)
  then have ih: "loaderInv hook deps (runLoader hook deps evs)"
    "\<forall>j<length deps. slotAt (scriptTexts (runLoader hook deps evs)) j \<noteq> None \<longleftrightarrow> j \<in> index ` set evs"
    and ev: "index ev < length deps" by simp_all
  from ih(1) have len: "length (scriptTexts (runLoader hook deps evs)) = length deps"
    by (simp add: loaderInv_def)
  show ?case
    using onLoad_inv [OF ev ih(1)] ih(2) onLoad_slots [OF ev len, of hook]
    by (auto simp: runLoader_snoc)
qed

lemma writeNextScript_sourced:
  "sourced evs st \<Longrightarrow> sourced evs (writeNextScript hook deps st)"
proof (induction hook deps st rule: writeNextScript.induct)
  case (1 hook deps st)
  show ?case
  proof (cases "length deps \<le> loadedIndex st")
    case True
    with "1.prems" show ?thesis
      by (auto simp: writeNextScript.simps [of hook deps st] sourced_def writesOf_append)
  next
    case False
    show ?thesis
    proof (cases "slotAt (scriptTexts st) (loadedIndex st)")
      case None
      with False "1.prems" show ?thesis
        by (simp add: writeNextScript.simps [of hook deps st])
    next
      case (Some scriptText)
      let ?st = "st\<lparr>headElement :=
                        writeScript scriptText (fst (deps ! loadedIndex st))
                          (snd (deps ! loadedIndex st)) (headElement st),
                      trace := trace st @ [WriteScript (loadedIndex st) scriptText],
                      loadedIndex := loadedIndex st + 1\<rparr>"
      have "sourced evs ?st"
        using "1.prems" Some by (auto simp: sourced_def writesOf_append)
      from "1.IH" [OF _ Some this] False
      have "sourced evs (writeNextScript hook deps ?st)" by simp
      moreover have "writeNextScript hook deps st = writeNextScript hook deps ?st"
        using False Some by (simp add: writeNextScript.simps [of hook deps st])
      ultimately show ?thesis by simp
    qed
  qed
qed

lemma fromCompletion_snoc:
  "fromCompletion (evs @ [ev]) i t \<longleftrightarrow>
     fromCompletion evs i t \<or> (index ev = i \<and> t = responseOf (status ev) (responseText ev))"
  by (auto simp: fromCompletion_def)

lemma onLoad_sourced:
  assumes "index ev < length deps" "length (scriptTexts st) = length deps" "sourced evs st"
  shows "sourced (evs @ [ev]) (onLoad hook deps st ev)"
proof -
  let ?st = "st\<lparr>scriptTexts :=
             setSlot (scriptTexts st) (index ev) (responseOf (status ev) (responseText ev))\<rparr>"
  have "sourced (evs @ [ev]) ?st"
    using assms by (auto simp: sourced_def slotAt_setSlot fromCompletion_snoc)
  then show ?thesis unfolding onLoad_def by (rule writeNextScript_sourced)
qed

lemma runLoader_sourced:
  assumes "\<forall>ev\<in>set evs. index ev < length deps"
  shows "sourced evs (runLoader hook deps evs)"
  using assms
proof (induction evs rule: rev_induct)
  case Nil
  then show ?case by (simp add: runLoader_def startLoader_def sourced_def slotAt_def)
next
  case (snoc ev evs)
  then have ih: "sourced evs (runLoader hook deps evs)" and ev: "index ev < length deps"
    and all: "\<forall>ev\<in>set evs. index ev < length deps" by simp_all
  have "length (scriptTexts (runLoader hook deps evs)) = length deps"
    using runLoader_inv [OF all, of hook] by (simp add: loaderInv_def)
  from onLoad_sourced [OF ev this ih] show ?case by (simp add: runLoader_snoc)
qed

section \<open>Properties of the writer\<close>

lemma writeSeries_append:
  "writeSeries env (xs @ ys) log =
     (case writeSeries env xs log of
        (log', Some err) \<Rightarrow> (log', Some err)
      | (log', None) \<Rightarrow> writeSeries env ys log')"
  by (induction xs arbitrary: log) (auto split: option.splits)

lemma artifact_pair:
  "artifact env this (hasParent, module) =
     (getDepFileContent env this hasParent module, outputPathPrefix this @ name module @ ''.js'')"
  by (simp add: artifact_def)

lemma createDepFiles_eachSeries_writeSeries:
  "createDepFiles env this hasParent module log =
     writeSeries env (map (artifact env this) (preorder hasParent module)) log"
  "eachSeries env this subs log =
     writeSeries env (map (artifact env this) (concat (map (preorder True) subs))) log"
proof (induction env this hasParent module log and env this subs log
    rule: createDepFiles_eachSeries.induct)
  case (1 env this hasParent n ds subs w log)
  let ?m = "JsModule n ds subs w"
  let ?c = "getDepFileContent env this hasParent ?m"
  let ?f = "outputPathPrefix this @ n @ ''.js''"
  show ?case
  proof (cases "writeFile env log ?c ?f")
    case None
    have "eachSeries env this subs (log @ [(?c, ?f)]) =
            writeSeries env (map (artifact env this) (concat (map (preorder True) subs)))
              (log @ [(?c, ?f)])"
      using "1.IH" [OF refl refl refl] None by simp
    with None show ?thesis by (simp add: artifact_pair)
  next
    case (Some err)
    then show ?thesis by (simp add: artifact_pair)
  qed
next
  case (2 env this log)
  then show ?case by simp
next
  case (3 env this subModule rest log)
  obtain log' r where c: "createDepFiles env this True subModule log = (log', r)"
    by (cases "createDepFiles env this True subModule log")
  with "3.IH"(1)
  have w: "writeSeries env (map (artifact env this) (preorder True subModule)) log = (log', r)"
    by simp
  show ?case
  proof (cases r)
    case None
    have "eachSeries env this rest log' =
            writeSeries env (map (artifact env this) (concat (map (preorder True) rest))) log'"
      using "3.IH"(2) [of log' r] c None by simp
    with c w None show ?thesis by (simp add: writeSeries_append)
  next
    case (Some e)
    with c w show ?thesis by (simp add: writeSeries_append)
  qed
qed

lemma writeSeries_prefix: "\<exists>k. fst (writeSeries env xs log) = log @ take k xs"
proof (induction xs arbitrary: log)
  case Nil
  then show ?case by simp
next
  case (Cons a xs)
  show ?case
  proof (cases "writeFile env log (fst a) (snd a)")
    case None
    obtain k where "fst (writeSeries env xs (log @ [a])) = (log @ [a]) @ take k xs"
      using Cons [of "log @ [a]"] ..
    with None have "fst (writeSeries env (a # xs) log) = log @ take (Suc k) (a # xs)" by simp
    then show ?thesis ..
  next
    case (Some err)
    then have "fst (writeSeries env (a # xs) log) = log @ take (Suc 0) (a # xs)" by simp
    then show ?thesis ..
  qed
qed

lemma writeSeries_success:
  "snd (writeSeries env xs log) = None \<Longrightarrow> fst (writeSeries env xs log) = log @ xs"
  by (induction xs arbitrary: log) (auto split: option.splits)

lemma writeSeries_all_succeed:
  "(\<And>l c f. writeFile env l c f = None) \<Longrightarrow> writeSeries env xs log = (log @ xs, None)"
  by (induction xs arbitrary: log) auto

lemma preorder_unfold:
  "preorder hasParent module =
     (hasParent, module) # concat (map (preorder True) (getSubModules module))"
  by (cases module) simp

lemma replaceFrom_absent:
  "c \<notin> set s \<Longrightarrow> replaceFrom (c # p) rep preceding s = s"
proof (induction s arbitrary: preceding)
  case Nil
  then show ?case by simp
next
  case (Cons x s)
  then have x: "x \<noteq> c" and s: "c \<notin> set s" by auto
  from x show ?case by (simp add: Cons.IH [OF s])
qed

section \<open>What counts as a missing require\<close>

text \<open>
  Claim C1, as the code has it. Take a file with a syntax tree, checked with a cache of
  code identifiers that agrees with the provide list, and let the check return a
  result. A namespace that is not named like a member of \<open>Object.prototype\<close> is in
  \<open>missingRequires\<close> exactly when a code-identifier usage of the file resolves to it
  and the file neither provides nor requires it; every entry of \<open>missingRequires\<close> is
  a namespace that a code-identifier usage resolves to and that the file neither
  provides nor requires; the list is sorted and has no duplicates. The doc-comment
  types take no part in it: with other comments, another type extractor or another
  engine, a check that returns a result returns the same \<open>missingRequires\<close>. (The doc
  types are only consulted when the declared requires are sifted for unnecessary
  ones.)
\<close>

theorem missing_counts_code_usages_only:
  assumes "syntaxTree jsSource = Some tree" and "cacheAgrees jsMatches provs (jsCache this)"
    and "fst (getWrongRequiresInFile getTypes search this jsSource provs) = Inr res"
  shows "(p \<notin> set objectPrototypeKeys \<longrightarrow>
           (p \<in> set (missingRequires res) \<longleftrightarrow>
              p \<in> resolved jsMatches provs (codeUsages tree)
              \<and> p \<notin> set (provides jsSource) \<and> p \<notin> set (requires jsSource)))
    \<and> set (missingRequires res) \<subseteq>
         resolved jsMatches provs (codeUsages tree)
           - (set (provides jsSource) \<union> set (requires jsSource))
    \<and> sorted (missingRequires res)
    \<and> distinct (missingRequires res)
    \<and> (fst (getWrongRequiresInFile getTypes' search' this
              (jsSource\<lparr>syntaxTree := Some (tree\<lparr>comments := cs\<rparr>)\<rparr>) provs) = Inr res'
        \<longrightarrow> missingRequires res' = missingRequires res)"
proof -
  let ?r1 = "resolveIds jsMatches provs (codeUsages tree) (jsCache this) []"
  have m: "set (missingRequires res) =
           resolved jsMatches provs (codeUsages tree)
             - (set (provides jsSource) \<union> set (requires jsSource) \<union> set objectPrototypeKeys)"
    using assms by (rule missing_set)
  have eq: "missingRequires res =
      sort (filter (\<lambda>p. p \<notin> set (provides jsSource @ requires jsSource)
                          \<and> p \<notin> set objectPrototypeKeys) (fst ?r1))"
    using assms(3) unfolding getWrongRequiresInFile_tree [OF assms(1)]
    by (auto simp: Let_def split: sum.splits)
  have b: "sorted (missingRequires res)" unfolding eq by simp
  have "distinct (fst ?r1)" by (rule resolveIds_distinct) simp
  then have c: "distinct (missingRequires res)" unfolding eq by simp
  have t: "syntaxTree (jsSource\<lparr>syntaxTree := Some (tree\<lparr>comments := cs\<rparr>)\<rparr>)
             = Some (tree\<lparr>comments := cs\<rparr>)"
    by simp
  have cu: "codeUsages (tree\<lparr>comments := cs\<rparr>) = codeUsages tree" by (simp add: codeUsages_def)
  have d: "missingRequires res' = missingRequires res"
    if "fst (getWrongRequiresInFile getTypes' search' this
              (jsSource\<lparr>syntaxTree := Some (tree\<lparr>comments := cs\<rparr>)\<rparr>) provs) = Inr res'"
  proof -
    from that have "missingRequires res' =
      sort (filter (\<lambda>p. p \<notin> set (provides jsSource @ requires jsSource)
                          \<and> p \<notin> set objectPrototypeKeys) (fst ?r1))"
      unfolding getWrongRequiresInFile_tree [OF t] cu by (auto simp: Let_def split: sum.splits)
    with eq show ?thesis by simp
  qed
  from m b c d show ?thesis by blast
qed

text \<open>
  A file that calls \<open>other.Bar(\<close> and names \<open>ns.Foo\<close> in a doc comment only: the missing
  list holds \<open>other.Bar\<close> and not \<open>ns.Foo\<close>.
\<close>

theorem missing_counts_code_usages_only_witness:
  "fst (getWrongRequiresInFile jsdocParser_getTypes fragmentRegExp newRequireChecker
      \<lparr>path = ''f.js'', provides = [''f.F''], requires = [''x.Unused''],
       syntaxTree = Some
         \<lparr>tokens = Some [Identifier ''other'', Punctuator ''.'', Identifier ''Bar'', Punctuator ''(''],
          comments = Some [\<lparr>com_type = ''Block'', com_value = ''* @param {Array.<ns.Foo>} x ''\<rparr>]\<rparr>\<rparr>
      [''x.Unused'', ''other.Bar'', ''ns.Foo'', ''f.F''])
     = Inr \<lparr>missingRequires = [''other.Bar''], unnecessaryRequires = [''x.Unused'']\<rparr>
   \<and> resolved jsMatches [''x.Unused'', ''other.Bar'', ''ns.Foo'', ''f.F'']
        (codeUsages \<lparr>tokens = Some [Identifier ''other'', Punctuator ''.'', Identifier ''Bar'', Punctuator ''(''],
          comments = Some [\<lparr>com_type = ''Block'', com_value = ''* @param {Array.<ns.Foo>} x ''\<rparr>]\<rparr>)
       = {''other.Bar''}
   \<and> ''other.Bar'' \<notin> set objectPrototypeKeys"
proof -
  let ?tree = "\<lparr>tokens = Some [Identifier ''other'', Punctuator ''.'', Identifier ''Bar'', Punctuator ''(''],
          comments = Some [\<lparr>com_type = ''Block'', com_value = ''* @param {Array.<ns.Foo>} x ''\<rparr>]\<rparr>"
  let ?src = "\<lparr>path = ''f.js'', provides = [''f.F''], requires = [''x.Unused''],
       syntaxTree = Some ?tree\<rparr>"
  let ?provs = "[''x.Unused'', ''other.Bar'', ''ns.Foo'', ''f.F'']"
  let ?res = "\<lparr>missingRequires = [''other.Bar''], unnecessaryRequires = [''x.Unused'']\<rparr>"
  have h1: "syntaxTree ?src = Some ?tree" by simp
  have h2: "cacheAgrees jsMatches ?provs (jsCache newRequireChecker)"
    by (simp add: newRequireChecker_def cacheAgrees_empty)
  have h3: "fst (getWrongRequiresInFile jsdocParser_getTypes fragmentRegExp newRequireChecker ?src ?provs)
              = Inr ?res"
    by (simp add: getWrongRequiresInFile_def newRequireChecker_def getFileIdsMap_def idsStep_def
      Identifier_def Punctuator_def collectTypes_def isDocComment_def jsdocParser_getTypes_def
      truthyAt_def setKey_def objectPrototypeKeys_def cacheGet_def
      jsMatches_def charAt_def testNonWordDollar_def wordChars_def
      docMatches_def fragmentRegExp_def docPattern_def escaped_def syntaxChars_def)
  have c: "codeUsages ?tree = [''other.Bar'']"
    by (simp add: codeUsages_def getFileIdsMap_def idsStep_def Identifier_def Punctuator_def
        truthyAt_def setKey_def objectPrototypeKeys_def)
  have rc: "resolved jsMatches ?provs (codeUsages ?tree) = {''other.Bar''}"
    unfolding c
    by (simp add: resolved_Cons resolved_Nil jsMatches_def charAt_def testNonWordDollar_def wordChars_def)
  have ni: "''other.Bar'' \<notin> set objectPrototypeKeys" by (simp add: objectPrototypeKeys_def)
  from missing_counts_code_usages_only [OF h1 h2 h3, of "''other.Bar''"] h3 rc ni
  show ?thesis by simp
qed

text \<open>
  The sentence of the specification fails on its own example. The comment
  \<open>/** @param {Array.<ns.Foo>} x */\<close> yields the doc type \<open>Array.<ns.Foo>\<close>, which
  resolves to the provide \<open>ns.Foo\<close>; the file neither provides nor requires \<open>ns.Foo\<close>;
  and the returned \<open>missingRequires\<close> is empty.
\<close>

theorem doc_only_usage_not_missing:
  "docUsages jsdocParser_getTypes
      \<lparr>tokens = Some [], comments = Some [\<lparr>com_type = ''Block'', com_value = ''* @param {Array.<ns.Foo>} x ''\<rparr>]\<rparr>
     = [''Array.<ns.Foo>'']
   \<and> everyProvideDoc fragmentRegExp ''Array.<ns.Foo>'' [''ns.Foo''] = Inr (Some ''ns.Foo'')
   \<and> getWrongRequiresInFile jsdocParser_getTypes fragmentRegExp newRequireChecker
        \<lparr>path = ''f.js'', provides = [], requires = [],
         syntaxTree = Some \<lparr>tokens = Some [],
           comments = Some [\<lparr>com_type = ''Block'', com_value = ''* @param {Array.<ns.Foo>} x ''\<rparr>]\<rparr>\<rparr>
        [''ns.Foo'']
     = (Inr \<lparr>missingRequires = [], unnecessaryRequires = []\<rparr>,
        newRequireChecker\<lparr>docCache := [''Array.<ns.Foo>'' \<mapsto> Some ''ns.Foo'']\<rparr>)"
  by (simp add: getWrongRequiresInFile_def newRequireChecker_def getFileIdsMap_def
      docUsages_def collectTypes_def isDocComment_def jsdocParser_getTypes_def
      truthyAt_def setKey_def objectPrototypeKeys_def cacheGet_def
      docMatches_def fragmentRegExp_def docPattern_def escaped_def syntaxChars_def)

section \<open>Resolution of a code identifier\<close>

text \<open>
  Claim C2. The provide array that \<open>getWrongRequires\<close> builds is strictly descending in
  the lexicographic order of strings, and \<open>provides.every\<close> walks it from the front. A
  candidate \<open>p\<close> matches a usage \<open>u\<close> exactly when \<open>u\<close> is \<open>p\<close> followed by nothing, or by a
  character that is neither a word character nor \<open>$\<close>. The walk over the registry
  therefore answers \<open>p\<close> exactly when \<open>p\<close> is the greatest matching provide of the
  registry. The loop over the usages of a file, run with a memo cache that agrees with
  the registry, collects exactly the greatest matching provides of the usages: this
  holds for every list of usages without the name of an inherited member, and so for
  every list that \<open>getFileIdsMap\<close> returns. In particular a registry made of \<open>a.b\<close> and
  \<open>a.b.C\<close> resolves \<open>a.b.C.d\<close> to \<open>a.b.C\<close>.
\<close>

theorem resolution_prefers_greatest_match:
  "sorted_wrt (\<lambda>a b. b < a) (provideRegistry this jsSources externSources)
   \<and> (jsMatches p u \<longleftrightarrow>
        (\<exists>rest. u = p @ rest \<and>
           (case rest of [] \<Rightarrow> True | c # _ \<Rightarrow> c \<notin> set wordChars \<and> c \<noteq> CHR ''$'')))
   \<and> (everyProvide jsMatches u (provideRegistry this jsSources externSources) = Some p \<longleftrightarrow>
        p \<in> set (provideRegistry this jsSources externSources) \<and> jsMatches p u
        \<and> (\<forall>q\<in>set (provideRegistry this jsSources externSources). jsMatches q u \<longrightarrow> q \<le> p))
   \<and> (cacheAgrees jsMatches (provideRegistry this jsSources externSources) c
        \<and> (\<forall>v\<in>set us. v \<notin> set objectPrototypeKeys) \<longrightarrow>
        set (fst (resolveIds jsMatches (provideRegistry this jsSources externSources) us c [])) =
          {r \<in> set (provideRegistry this jsSources externSources).
             \<exists>v\<in>set us. jsMatches r v
               \<and> (\<forall>q\<in>set (provideRegistry this jsSources externSources). jsMatches q v \<longrightarrow> q \<le> r)})
   \<and> (cacheAgrees jsMatches (provideRegistry this jsSources externSources) c \<longrightarrow>
        set (fst (resolveIds jsMatches (provideRegistry this jsSources externSources)
                    (getFileIdsMap toks) c [])) =
          {r \<in> set (provideRegistry this jsSources externSources).
             \<exists>v\<in>set (getFileIdsMap toks). jsMatches r v
               \<and> (\<forall>q\<in>set (provideRegistry this jsSources externSources). jsMatches q v \<longrightarrow> q \<le> r)})
   \<and> (set (provideRegistry this jsSources externSources) = {''a.b'', ''a.b.C''} \<longrightarrow>
        everyProvide jsMatches ''a.b.C.d'' (provideRegistry this jsSources externSources)
          = Some ''a.b.C'')"
proof -
  let ?reg = "provideRegistry this jsSources externSources"
  have d: "sorted_wrt (\<lambda>a b. b < a) ?reg" by (rule provideRegistry_desc)
  have f: "\<And>v r. everyProvide jsMatches v ?reg = Some r \<longleftrightarrow>
        r \<in> set ?reg \<and> jsMatches r v \<and> (\<forall>q\<in>set ?reg. jsMatches q v \<longrightarrow> q \<le> r)"
    unfolding everyProvide_find by (rule find_desc [OF d])
  have e: "set ?reg = {''a.b'', ''a.b.C''} \<longrightarrow> everyProvide jsMatches ''a.b.C.d'' ?reg = Some ''a.b.C''"
  proof
    assume s: "set ?reg = {''a.b'', ''a.b.C''}"
    have "jsMatches ''a.b.C'' ''a.b.C.d''"
      by (simp add: jsMatches_def charAt_def testNonWordDollar_def wordChars_def)
    moreover have "\<forall>q\<in>set ?reg. jsMatches q ''a.b.C.d'' \<longrightarrow> q \<le> ''a.b.C''"
      using s by simp
    ultimately show "everyProvide jsMatches ''a.b.C.d'' ?reg = Some ''a.b.C''"
      using s f [of "''a.b.C.d''" "''a.b.C''"] by simp
  qed
  have g: "set (fst (resolveIds jsMatches ?reg ws c [])) =
          {r \<in> set ?reg. \<exists>v\<in>set ws. jsMatches r v \<and> (\<forall>q\<in>set ?reg. jsMatches q v \<longrightarrow> q \<le> r)}"
    if ag: "cacheAgrees jsMatches ?reg c" and ni: "\<forall>v\<in>set ws. v \<notin> set objectPrototypeKeys" for ws
  proof -
    have "set (fst (resolveIds jsMatches ?reg ws c [])) = resolved jsMatches ?reg ws - {''__proto__''}"
      using ag ni by (rule resolveIds_set)
    also have "\<dots> = {r. \<exists>v\<in>set ws. everyProvide jsMatches v ?reg = Some r} - {''__proto__''}"
      by (simp add: resolved_def everyProvide_find)
    also have "\<dots> = {r \<in> set ?reg. \<exists>v\<in>set ws. jsMatches r v
                  \<and> (\<forall>q\<in>set ?reg. jsMatches q v \<longrightarrow> q \<le> r)}"
      unfolding f using proto_not_provided [of this jsSources externSources] by blast
    finally show ?thesis .
  qed
  have h: "\<forall>v\<in>set (getFileIdsMap toks). v \<notin> set objectPrototypeKeys"
    using getFileIdsMap_not_inherited by blast
  from d f [of u p] e g [of us] g [OF _ h] jsMatches_iff [of p u] show ?thesis by blast
qed

theorem resolution_prefers_greatest_match_witness:
  "provideRegistry newRequireChecker
     [\<lparr>path = ''b.js'', provides = [''a.b''], requires = [], syntaxTree = None\<rparr>,
      \<lparr>path = ''c.js'', provides = [''a.b.C''], requires = [''a.b''], syntaxTree = None\<rparr>] []
     = [''a.b.C'', ''a.b'']
   \<and> jsMatches ''a.b.C'' ''a.b.C.d'' \<and> jsMatches ''a.b'' ''a.b.C.d'' \<and> \<not> jsMatches ''a.b'' ''a.bc''
   \<and> everyProvide jsMatches ''a.b.C.d''
       (provideRegistry newRequireChecker
         [\<lparr>path = ''b.js'', provides = [''a.b''], requires = [], syntaxTree = None\<rparr>,
          \<lparr>path = ''c.js'', provides = [''a.b.C''], requires = [''a.b''], syntaxTree = None\<rparr>] [])
       = Some ''a.b.C''
   \<and> fst (resolveIds jsMatches
       (provideRegistry newRequireChecker
         [\<lparr>path = ''b.js'', provides = [''a.b''], requires = [], syntaxTree = None\<rparr>,
          \<lparr>path = ''c.js'', provides = [''a.b.C''], requires = [''a.b''], syntaxTree = None\<rparr>] [])
       [''a.b.C.d'', ''a.bc''] Map.empty []) = [''a.b.C'']
   \<and> getFileIdsMap [Identifier ''a'', Punctuator ''.'', Identifier ''b'', Punctuator ''.'',
        Identifier ''C'', Punctuator ''.'', Identifier ''d'', Punctuator ''('', Punctuator '')'',
        Punctuator '';'', Identifier ''a'', Punctuator ''.'', Identifier ''bc'', Punctuator '';'']
     = [''a.b.C.d'', ''a.bc'']"
  using resolution_prefers_greatest_match [of newRequireChecker
     "[\<lparr>path = ''b.js'', provides = [''a.b''], requires = [], syntaxTree = None\<rparr>,
      \<lparr>path = ''c.js'', provides = [''a.b.C''], requires = [''a.b''], syntaxTree = None\<rparr>]" "[]"
     "''a.b.C''" "''a.b.C.d''" Map.empty "[''a.b.C.d'', ''a.bc'']"
     "[Identifier ''a'', Punctuator ''.'', Identifier ''b'', Punctuator ''.'',
        Identifier ''C'', Punctuator ''.'', Identifier ''d'', Punctuator ''('', Punctuator '')'',
        Punctuator '';'', Identifier ''a'', Punctuator ''.'', Identifier ''bc'', Punctuator '';'']"]
  by (simp add: cacheAgrees_empty provideRegistry_def newRequireChecker_def collectProvides_def excludeFrom_def
      sortBy_def compareDesc_def setKey_def truthyAt_def objectPrototypeKeys_def cacheGet_def
      jsMatches_def charAt_def testNonWordDollar_def wordChars_def
      getFileIdsMap_def idsStep_def Identifier_def Punctuator_def)

section \<open>The writer of the asynchronous loader\<close>

text \<open>
  Claim C3. Take any run of the asynchronous loader in which the fetches complete in
  any order, each completion carrying an index of the dependency list. A completion
  stores its text in the slot of its index and changes no other slot. After every
  completion the calls of \<open>writeScript\<close> made so far are those for the indices
  \<open>0, 1, ..., loadedIndex - 1\<close> in this order, every text written is the text of a
  completion for its index, and the script elements in the head are the ones these
  calls append, in the same order. Every index below \<open>loadedIndex\<close> has completed and
  \<open>loadedIndex\<close> itself, when it is still an index of the list, has not: the writer
  stops at the first slot that is not available. A completion only adds to the trace.
  Wherever the trace has a call of the completion hook, the calls of \<open>writeScript\<close>
  before it are those for all the entries of the list, in list order, and no call of
  \<open>writeScript\<close> comes after it: the hook is called only after the final entry is
  written. Every call of the hook is made when the global is a function, and when
  all entries are written and the global is a function, the hook has been called.
  When every index has completed, all entries have been written in list order.
\<close>

theorem async_writer_keeps_list_order:
  assumes "\<forall>e\<in>set (evs @ [ev]). index e < length deps"
  shows "slotAt (scriptTexts (runLoader hook deps (evs @ [ev]))) j =
           (if j = index ev then Some (responseOf (status ev) (responseText ev))
            else slotAt (scriptTexts (runLoader hook deps evs)) j)
    \<and> (let st = runLoader hook deps (evs @ [ev]); calls = writesOf (trace st) in
          map fst calls = [0..<loadedIndex st]
        \<and> headElement st = injected deps calls
        \<and> (\<forall>c\<in>set calls. fromCompletion (evs @ [ev]) (fst c) (snd c))
        \<and> loadedIndex st \<le> length deps
        \<and> (\<forall>i<loadedIndex st. i \<in> index ` set (evs @ [ev]))
        \<and> (loadedIndex st < length deps \<longrightarrow> loadedIndex st \<notin> index ` set (evs @ [ev]))
        \<and> (\<exists>more. trace st = trace (runLoader hook deps evs) @ more)
        \<and> (\<forall>pre post. trace st = pre @ CompletionHook # post \<longrightarrow>
              hook pre \<and> map fst (writesOf pre) = [0..<length deps] \<and> writesOf post = [])
        \<and> (CompletionHook \<in> set (trace st) \<longrightarrow> map fst calls = [0..<length deps])
        \<and> (hook (trace st) \<and> loadedIndex st = length deps \<longrightarrow> CompletionHook \<in> set (trace st))
        \<and> (index ` set (evs @ [ev]) = {0..<length deps} \<longrightarrow> map fst calls = [0..<length deps]))"
proof -
  let ?st = "runLoader hook deps (evs @ [ev])"
  from assms have all: "\<forall>e\<in>set evs. index e < length deps" and ev: "index ev < length deps"
    by simp_all
  have len: "length (scriptTexts (runLoader hook deps evs)) = length deps"
    using runLoader_inv [OF all, of hook] by (simp add: loaderInv_def)
  have a: "slotAt (scriptTexts ?st) j =
           (if j = index ev then Some (responseOf (status ev) (responseText ev))
            else slotAt (scriptTexts (runLoader hook deps evs)) j)"
    unfolding runLoader_snoc by (rule onLoad_slots [OF ev len])
  have inv: "loaderInv hook deps ?st" and set: "settled hook deps ?st"
    and slots: "\<forall>j<length deps. slotAt (scriptTexts ?st) j \<noteq> None \<longleftrightarrow> j \<in> index ` set (evs @ [ev])"
    using runLoader_inv [OF assms, of hook] by simp_all
  have src: "\<forall>c\<in>set (writesOf (trace ?st)). fromCompletion (evs @ [ev]) (fst c) (snd c)"
    using runLoader_sourced [OF assms, of hook] by (simp add: sourced_def)
  have b1: "map fst (writesOf (trace ?st)) = [0..<loadedIndex ?st]"
    and b2: "headElement ?st = injected deps (writesOf (trace ?st))"
    and b3: "loadedIndex ?st \<le> length deps"
    and b4: "CompletionHook \<in> set (trace ?st) \<longrightarrow> loadedIndex ?st = length deps"
    and b5: "\<forall>i<loadedIndex ?st. slotAt (scriptTexts ?st) i \<noteq> None"
    and b6: "hookAfterWrites hook deps (trace ?st)"
    using inv by (simp_all add: loaderInv_def)
  have c1: "\<forall>i<loadedIndex ?st. i \<in> index ` set (evs @ [ev])"
    using b5 b3 slots by (meson less_le_trans)
  have c2: "loadedIndex ?st < length deps \<longrightarrow> loadedIndex ?st \<notin> index ` set (evs @ [ev])"
    using set slots by (auto simp: settled_def)
  have c3: "hook (trace ?st) \<and> loadedIndex ?st = length deps \<longrightarrow> CompletionHook \<in> set (trace ?st)"
    using set unfolding settled_def by blast
  have c4: "index ` set (evs @ [ev]) = {0..<length deps} \<longrightarrow> loadedIndex ?st = length deps"
  proof
    assume e: "index ` set (evs @ [ev]) = {0..<length deps}"
    show "loadedIndex ?st = length deps"
    proof (rule ccontr)
      assume "loadedIndex ?st \<noteq> length deps"
      with b3 have l: "loadedIndex ?st < length deps" by simp
      with c2 have "loadedIndex ?st \<notin> index ` set (evs @ [ev])" by blast
      then have "loadedIndex ?st \<notin> {0..<length deps}" unfolding e .
      with l show False by simp
    qed
  qed
  have d1: "\<exists>more. trace ?st = trace (runLoader hook deps evs) @ more"
    unfolding runLoader_snoc using onLoad_trace [of hook deps "runLoader hook deps evs" ev] by blast
  have d2: "\<forall>pre post. trace ?st = pre @ CompletionHook # post \<longrightarrow>
              hook pre \<and> map fst (writesOf pre) = [0..<length deps] \<and> writesOf post = []"
    using b6 unfolding hookAfterWrites_def .
  from a b1 b2 b3 b4 src c1 c2 c3 c4 d1 d2 show ?thesis by (simp add: Let_def)
qed

text \<open>Three dependencies whose fetches complete in the order 2, 0, 1.\<close>

theorem async_writer_keeps_list_order_witness:
  "trace (runLoader (\<lambda>acts. True) [(''a.js'', False), (''b.js'', True), (''c.js'', False)]
     [\<lparr>index = 2, status = 200, responseText = ''C''\<rparr>]) = []
   \<and> trace (runLoader (\<lambda>acts. True) [(''a.js'', False), (''b.js'', True), (''c.js'', False)]
     [\<lparr>index = 2, status = 200, responseText = ''C''\<rparr>,
      \<lparr>index = 0, status = 200, responseText = ''A''\<rparr>]) = [WriteScript 0 (Some ''A'')]
   \<and> runLoader (\<lambda>acts. True) [(''a.js'', False), (''b.js'', True), (''c.js'', False)]
     ([\<lparr>index = 2, status = 200, responseText = ''C''\<rparr>,
       \<lparr>index = 0, status = 200, responseText = ''A''\<rparr>]
      @ [\<lparr>index = 1, status = 200, responseText = ''B''\<rparr>])
     = \<lparr>loadedIndex = 3,
        scriptTexts = [Some (Some ''A''), Some (Some ''B''), Some (Some ''C'')],
        headElement =
          [''A'' @ [CHR 0x0A] @ ''//# sourceURL=a.js'',
           ''goog.loadModule(function(exports) {'' @ [CHR 0x22] @ ''use strict'' @ [CHR 0x22]
             @ '';B'' @ [CHR 0x0A] @ '';return exports});'' @ [CHR 0x0A]
             @ ''//# sourceURL=b.js'' @ [CHR 0x0A],
           ''C'' @ [CHR 0x0A] @ ''//# sourceURL=c.js''],
        trace = [WriteScript 0 (Some ''A''), WriteScript 1 (Some ''B''), WriteScript 2 (Some ''C''),
                 CompletionHook]\<rparr>"
  using async_writer_keeps_list_order [of
      "[\<lparr>index = 2, status = 200, responseText = ''C''\<rparr>,
        \<lparr>index = 0, status = 200, responseText = ''A''\<rparr>]"
      "\<lparr>index = 1, status = 200, responseText = ''B''\<rparr>"
      "[(''a.js'', False), (''b.js'', True), (''c.js'', False)]" "\<lambda>acts. True" 1]
  by (simp add: runLoader_def onLoad_def startLoader_def setSlot_def slotAt_def responseOf_def
      writeScript_def writeNextScript.simps)

section \<open>The order of the writes of a build\<close>

text \<open>
  Claim C4. \<open>_createDepFiles\<close> attempts the writes of the artifacts of a module tree
  one after the other in the order in which the tree lists a module before its
  sub-modules and the sub-modules in their order, and stops at the first write that
  fails: the writes attempted are a prefix of that list, they are the whole list
  when no error is reported, and when the write of a module fails the error is
  handed to the callback with no write attempted for its sub-modules or for any
  later module.
\<close>

theorem createDepFiles_parent_first_serial:
  "createDepFiles env this hasParent module log =
     writeSeries env (map (artifact env this) (preorder hasParent module)) log
   \<and> preorder hasParent module =
       (hasParent, module) # concat (map (preorder True) (getSubModules module))
   \<and> (\<exists>k. fst (createDepFiles env this hasParent module log) =
             log @ take k (map (artifact env this) (preorder hasParent module)))
   \<and> (snd (createDepFiles env this hasParent module log) = None \<longrightarrow>
        fst (createDepFiles env this hasParent module log) =
          log @ map (artifact env this) (preorder hasParent module))
   \<and> (writeFile env log (fst (artifact env this (hasParent, module)))
          (snd (artifact env this (hasParent, module))) = Some err \<longrightarrow>
        createDepFiles env this hasParent module log =
          (log @ [artifact env this (hasParent, module)], Some err))"
proof -
  let ?arts = "map (artifact env this) (preorder hasParent module)"
  have a: "createDepFiles env this hasParent module log = writeSeries env ?arts log"
    by (rule createDepFiles_eachSeries_writeSeries)
  have b: "\<exists>k. fst (writeSeries env ?arts log) = log @ take k ?arts"
    by (rule writeSeries_prefix)
  have c: "snd (writeSeries env ?arts log) = None \<longrightarrow> fst (writeSeries env ?arts log) = log @ ?arts"
    using writeSeries_success by blast
  have d: "writeFile env log (fst (artifact env this (hasParent, module)))
          (snd (artifact env this (hasParent, module))) = Some err \<longrightarrow>
        writeSeries env ?arts log = (log @ [artifact env this (hasParent, module)], Some err)"
    by (subst preorder_unfold) simp
  from a b c d preorder_unfold [of hasParent module] show ?thesis by simp
qed

text \<open>
  The tree of a root \<open>R\<close> with one child \<open>C\<close>: \<open>out/R.js\<close> is written before
  \<open>out/C.js\<close>, and when the write of \<open>out/R.js\<close> fails, \<open>out/C.js\<close> is not attempted.
\<close>

theorem createDepFiles_parent_first_serial_witness:
  "map snd (fst (createDepFiles (exampleEnv (\<lambda>f. False)) exampleWriter False
      (JsModule ''R'' [(''f1.js'', False), (''f2.js'', False)]
         [JsModule ''C'' [(''f1.js'', False), (''f2.js'', False), (''f3.js'', False)] [] None] None) []))
     = [''out/R.js'', ''out/C.js'']
   \<and> snd (createDepFiles (exampleEnv (\<lambda>f. False)) exampleWriter False
      (JsModule ''R'' [(''f1.js'', False), (''f2.js'', False)]
         [JsModule ''C'' [(''f1.js'', False), (''f2.js'', False), (''f3.js'', False)] [] None] None) [])
     = None
   \<and> map snd (fst (createDepFiles (exampleEnv (\<lambda>f. f = ''out/R.js'')) exampleWriter False
      (JsModule ''R'' [(''f1.js'', False), (''f2.js'', False)]
         [JsModule ''C'' [(''f1.js'', False), (''f2.js'', False), (''f3.js'', False)] [] None] None) []))
     = [''out/R.js'']
   \<and> snd (createDepFiles (exampleEnv (\<lambda>f. f = ''out/R.js'')) exampleWriter False
      (JsModule ''R'' [(''f1.js'', False), (''f2.js'', False)]
         [JsModule ''C'' [(''f1.js'', False), (''f2.js'', False), (''f3.js'', False)] [] None] None) [])
     = Some (Error ''EACCES'')"
  using createDepFiles_parent_first_serial [of "exampleEnv (\<lambda>f. f = ''out/R.js'')" exampleWriter False
      "JsModule ''R'' [(''f1.js'', False), (''f2.js'', False)]
         [JsModule ''C'' [(''f1.js'', False), (''f2.js'', False), (''f3.js'', False)] [] None] None"
      "[]" "Error ''EACCES''"]
  by (simp add: exampleEnv_def exampleWriter_def artifact_pair)

section \<open>Truncation at \<open>prototype\<close>\<close>



section \<open>Unnecessary requires\<close>

text \<open>
  Claim C6 says that a declared require which no code-identifier usage and no doc-type
  usage of the file resolves to is in \<open>unnecessaryRequires\<close>. The code does not do
  this for a require named like a member of \<open>Object.prototype\<close>. The file \<open>f.js\<close>
  requires \<open>constructor\<close> and \<open>x.Unused\<close>, both provided by other files; its code is
  \<open>y;\<close> and it has no comment, so its only usage is \<open>y\<close>, which resolves to nothing.
  Whatever the type extractor and the engine are, a fresh checker returns
  \<open>unnecessaryRequires = [x.Unused]\<close>: \<open>constructor\<close> is left out, because the test
  \<open>!usedNamespacesMap[require]\<close> reads the member that every object inherits.
\<close>

theorem unused_inherited_name_require_not_reported:
  "getWrongRequiresInFile getTypes search newRequireChecker
      \<lparr>path = ''f.js'', provides = [], requires = [''constructor'', ''x.Unused''],
       syntaxTree = Some \<lparr>tokens = Some [Identifier ''y'', Punctuator '';''], comments = Some []\<rparr>\<rparr>
      [''x.Unused'', ''constructor'']
     = (Inr \<lparr>missingRequires = [], unnecessaryRequires = [''x.Unused'']\<rparr>,
        newRequireChecker\<lparr>jsCache := [''y'' \<mapsto> None]\<rparr>)
   \<and> codeUsages \<lparr>tokens = Some [Identifier ''y'', Punctuator '';''], comments = Some []\<rparr> = [''y'']
   \<and> resolved jsMatches [''x.Unused'', ''constructor'']
        (codeUsages \<lparr>tokens = Some [Identifier ''y'', Punctuator '';''], comments = Some []\<rparr>) = {}
   \<and> docUsages getTypes \<lparr>tokens = Some [Identifier ''y'', Punctuator '';''], comments = Some []\<rparr> = []"
  by (simp add: getWrongRequiresInFile_def newRequireChecker_def getFileIdsMap_def idsStep_def
      Identifier_def Punctuator_def collectTypes_def codeUsages_def docUsages_def
      resolved_Cons resolved_Nil
      truthyAt_def setKey_def objectPrototypeKeys_def cacheGet_def
      jsMatches_def charAt_def testNonWordDollar_def wordChars_def)

section \<open>A failing save of the cache\<close>

text \<open>
  Claim C7, as the code has it. When the parser succeeds and a cache is configured, an
  error that \<open>save\<close> passes to its callback is printed with \<open>console.error\<close> and goes
  no further: the artifacts are written as without it, the caller receives what the
  writes report, and that is success when no write fails. An exception thrown by the
  call of \<open>save\<close> is caught and becomes the error of the run: it is handed to the
  caller and no artifact is written.
\<close>

theorem save_failure_logged_unless_thrown:
  "(cache this = Some (SaveFailed e) \<longrightarrow>
      build env this (Inr rootModule) =
        \<lparr>consoleErrors = [e],
         writes = fst (createDepFiles env this False rootModule []),
         reported = snd (createDepFiles env this False rootModule [])\<rparr>)
   \<and> (cache this = Some (SaveFailed e) \<and> (\<forall>l c f. writeFile env l c f = None) \<longrightarrow>
      build env this (Inr rootModule) =
        \<lparr>consoleErrors = [e],
         writes = map (artifact env this) (preorder False rootModule),
         reported = None\<rparr>)
   \<and> (cache this = Some (SaveThrew e) \<longrightarrow>
      build env this (Inr rootModule) = \<lparr>consoleErrors = [], writes = [], reported = Some e\<rparr>)"
proof -
  have a: "cache this = Some (SaveFailed e) \<longrightarrow>
      build env this (Inr rootModule) =
        \<lparr>consoleErrors = [e],
         writes = fst (createDepFiles env this False rootModule []),
         reported = snd (createDepFiles env this False rootModule [])\<rparr>"
    by (simp add: build_def split: prod.splits)
  have b: "(\<forall>l c f. writeFile env l c f = None) \<longrightarrow>
      createDepFiles env this False rootModule [] =
        (map (artifact env this) (preorder False rootModule), None)"
    using writeSeries_all_succeed [of env "map (artifact env this) (preorder False rootModule)" "[]"]
    by (simp add: createDepFiles_eachSeries_writeSeries(1))
  have c: "cache this = Some (SaveThrew e) \<longrightarrow>
      build env this (Inr rootModule) = \<lparr>consoleErrors = [], writes = [], reported = Some e\<rparr>"
    by (simp add: build_def)
  from a b c show ?thesis by simp
qed

theorem save_failure_logged_unless_thrown_witness:
  "consoleErrors (build (exampleEnv (\<lambda>f. False))
      (exampleWriter\<lparr>cache := Some (SaveFailed (Error ''ENOSPC''))\<rparr>)
      (Inr (JsModule ''R'' [(''f1.js'', False)] [JsModule ''C'' [(''f2.js'', False)] [] None] None)))
     = [Error ''ENOSPC'']
   \<and> map snd (writes (build (exampleEnv (\<lambda>f. False))
      (exampleWriter\<lparr>cache := Some (SaveFailed (Error ''ENOSPC''))\<rparr>)
      (Inr (JsModule ''R'' [(''f1.js'', False)] [JsModule ''C'' [(''f2.js'', False)] [] None] None))))
     = [''out/R.js'', ''out/C.js'']
   \<and> reported (build (exampleEnv (\<lambda>f. False))
      (exampleWriter\<lparr>cache := Some (SaveFailed (Error ''ENOSPC''))\<rparr>)
      (Inr (JsModule ''R'' [(''f1.js'', False)] [JsModule ''C'' [(''f2.js'', False)] [] None] None)))
     = None"
  using save_failure_logged_unless_thrown [of
      "exampleWriter\<lparr>cache := Some (SaveFailed (Error ''ENOSPC''))\<rparr>" "Error ''ENOSPC''"
      "exampleEnv (\<lambda>f. False)"
      "JsModule ''R'' [(''f1.js'', False)] [JsModule ''C'' [(''f2.js'', False)] [] None] None"]
  by (simp add: exampleEnv_def exampleWriter_def artifact_pair)

text \<open>
  The claim as the specification words it fails when \<open>save\<close> throws: the run reports
  the exception and attempts no write.
\<close>

theorem thrown_save_failure_propagates:
  "build (exampleEnv (\<lambda>f. False))
      (exampleWriter\<lparr>cache := Some (SaveThrew (Error ''boom''))\<rparr>)
      (Inr (JsModule ''R'' [(''f1.js'', False)] [JsModule ''C'' [(''f2.js'', False)] [] None] None))
     = \<lparr>consoleErrors = [], writes = [], reported = Some (Error ''boom'')\<rparr>"
  by (simp add: build_def exampleWriter_def)

section \<open>Files without a parsed form\<close>

text \<open>
  Claim C8. For every source file that has no syntax tree, \<open>getWrongRequiresInFile\<close>
  returns an empty \<open>missingRequires\<close> list and an empty \<open>unnecessaryRequires\<close> list.
  The outcome is the returned object (\<open>Inr\<close>), not an exception: on such a file the
  function skips every statement that can throw, and it leaves both caches of the
  checker as they were.
\<close>

theorem no_syntaxTree_empty_result:
  assumes "syntaxTree jsSource = None"
  shows "getWrongRequiresInFile getTypes search this jsSource provs =
           (Inr \<lparr>missingRequires = [], unnecessaryRequires = []\<rparr>, this)"
  using assms by (simp add: getWrongRequiresInFile_def)

theorem no_syntaxTree_empty_result_witness:
  "getWrongRequiresInFile (\<lambda>v. []) fragmentRegExp
     newRequireChecker
     \<lparr>path = ''a.js'', provides = [''a.A''], requires = [''b.B''], syntaxTree = None\<rparr>
     [''b.B'', ''a.A'']
   = (Inr \<lparr>missingRequires = [], unnecessaryRequires = []\<rparr>, newRequireChecker)"
  using no_syntaxTree_empty_result [of "\<lparr>path = ''a.js'', provides = [''a.A''],
    requires = [''b.B''], syntaxTree = None\<rparr>" "\<lambda>v. []" fragmentRegExp newRequireChecker "[''b.B'', ''a.A'']"]
  by simp

section \<open>Custom wrappers\<close>

text \<open>
  Claim C9, as the code has it. When a module has a custom wrapper, the content of its
  artifact is the text the wrapper returns after the substitutions of \<open>%defines%\<close>,
  \<open>%moduleInfo%\<close>, \<open>%moduleUris%\<close>, \<open>%name%\<close>, \<open>%productionUri%\<close> and \<open>%files%\<close>, in this
  order, and this content is what \<open>_createDepFiles\<close> hands to the first write it
  attempts for the module. A text without the character \<open>%\<close> has no placeholder and
  comes out of the substitutions as it went in.
\<close>

theorem custom_wrapper_text_is_substituted:
  assumes "getWrapper module = Some w"
  shows "getDepFileContent env this hasParent module =
           replaceAll ''%files%'' (filesJson env this (name module) (getDeps module))
             (replaceAll ''%productionUri%'' (productionUri this)
               (replaceAll ''%name%'' (name module)
                 (replaceAll ''%moduleUris%'' (jsonModuleUris this)
                   (replaceAll ''%moduleInfo%'' (jsonModuleInfo this)
                     (replaceAll ''%defines%'' (jsonDefines this) (w this))))))
    \<and> (\<exists>rest err. createDepFiles env this hasParent module log =
          (log @ (getDepFileContent env this hasParent module,
                  outputPathPrefix this @ name module @ ''.js'') # rest, err))
    \<and> (CHR ''%'' \<notin> set (w this) \<longrightarrow> getDepFileContent env this hasParent module = w this)"
proof -
  have a: "getDepFileContent env this hasParent module =
           replaceAll ''%files%'' (filesJson env this (name module) (getDeps module))
             (replaceAll ''%productionUri%'' (productionUri this)
               (replaceAll ''%name%'' (name module)
                 (replaceAll ''%moduleUris%'' (jsonModuleUris this)
                   (replaceAll ''%moduleInfo%'' (jsonModuleInfo this)
                     (replaceAll ''%defines%'' (jsonDefines this) (w this))))))"
    using assms by (simp add: getDepFileContent_def)
  obtain n ds subs w' where m: "module = JsModule n ds subs w'" by (cases module)
  let ?a = "(getDepFileContent env this hasParent module, outputPathPrefix this @ name module @ ''.js'')"
  have b: "\<exists>rest err. createDepFiles env this hasParent module log = (log @ ?a # rest, err)"
  proof (cases "writeFile env log (fst ?a) (snd ?a)")
    case None
    obtain k where "fst (writeSeries env (map (artifact env this) (concat (map (preorder True) subs)))
        (log @ [?a])) = (log @ [?a]) @ take k (map (artifact env this) (concat (map (preorder True) subs)))"
      using writeSeries_prefix by blast
    then have "eachSeries env this subs (log @ [?a]) =
        (log @ ?a # take k (map (artifact env this) (concat (map (preorder True) subs))),
         snd (eachSeries env this subs (log @ [?a])))"
      by (simp add: createDepFiles_eachSeries_writeSeries(2) prod_eq_iff)
    then have "\<exists>rest err. eachSeries env this subs (log @ [?a]) = (log @ ?a # rest, err)"
      by blast
    moreover have "createDepFiles env this hasParent module log = eachSeries env this subs (log @ [?a])"
      using None m by (simp add: Let_def)
    ultimately show ?thesis by simp
  next
    case (Some e)
    with m show ?thesis by (simp add: Let_def)
  qed
  have c: "CHR ''%'' \<notin> set (w this) \<longrightarrow> getDepFileContent env this hasParent module = w this"
    unfolding a by (simp add: replaceAll_def replaceFrom_absent)
  from a b c show ?thesis by blast
qed

theorem custom_wrapper_text_is_substituted_witness:
  "createDepFiles (exampleEnv (\<lambda>f. False)) exampleWriter False
      (JsModule ''R'' [(''f1.js'', False), (''f2.js'', False)] []
         (Some (\<lambda>this. ''load(%files%, %defines%); // %name% at %productionUri%''))) []
     = ([(''load([f1.js.f2.js], {}); // R at /js/'', ''out/R.js'')], None)"
  using custom_wrapper_text_is_substituted [of
      "JsModule ''R'' [(''f1.js'', False), (''f2.js'', False)] []
         (Some (\<lambda>this. ''load(%files%, %defines%); // %name% at %productionUri%''))"
      "\<lambda>this. ''load(%files%, %defines%); // %name% at %productionUri%''"
      "exampleEnv (\<lambda>f. False)" exampleWriter False "[]"]
  by (simp add: exampleEnv_def exampleWriter_def getDepFileContent_def replaceAll_def)

text \<open>
  The second half of the claim fails for a wrapper whose text has no placeholder: the
  text is written verbatim.
\<close>

theorem custom_wrapper_text_written_verbatim:
  "createDepFiles (exampleEnv (\<lambda>f. False)) exampleWriter False
      (JsModule ''R'' [(''f1.js'', False), (''f2.js'', False)] []
         (Some (\<lambda>this. ''loadAll();''))) []
     = ([(''loadAll();'', ''out/R.js'')], None)"
  by (simp add: exampleEnv_def exampleWriter_def getDepFileContent_def replaceAll_def)

section \<open>Chains that reach the end of the token list\<close>

text \<open>
  Claim C10. \<open>getFileIdsMap\<close> records a chain only at the token that ends it: every
  recorded key is the key of a run of chain tokens that is followed, in the token
  list, by a token that is neither an identifier nor the punctuator \<open>.\<close>. Chain tokens
  at the end of the list add nothing to the result, whatever precedes them.
\<close>

theorem unterminated_chain_not_recorded:
  "(list_all chainToken tail \<longrightarrow> getFileIdsMap (ts @ tail) = getFileIdsMap ts)
   \<and> (x \<in> set (getFileIdsMap ts) \<longrightarrow>
        (\<exists>pre chain t post. ts = pre @ chain @ [t] @ post \<and> list_all chainToken chain
           \<and> \<not> chainToken t \<and> x = joinDot (truncated (identsOf chain))))"
proof -
  have "x \<in> set (getFileIdsMap ts) \<longrightarrow>
        (\<exists>pre chain t post. ts = pre @ chain @ [t] @ post \<and> list_all chainToken chain
           \<and> \<not> chainToken t \<and> x = joinDot (truncated (identsOf chain)))"
    unfolding getFileIdsMap_iff completedChain_def by blast
  then show ?thesis using getFileIdsMap_tail by blast
qed

theorem unterminated_chain_not_recorded_witness:
  "list_all chainToken [Identifier ''c'', Punctuator ''.'', Identifier ''d'']
   \<and> getFileIdsMap ([Identifier ''a'', Punctuator ''.'', Identifier ''b'', Punctuator '';'']
        @ [Identifier ''c'', Punctuator ''.'', Identifier ''d''])
     = getFileIdsMap [Identifier ''a'', Punctuator ''.'', Identifier ''b'', Punctuator '';'']
   \<and> getFileIdsMap [Identifier ''a'', Punctuator ''.'', Identifier ''b'', Punctuator '';''] = [''a.b'']
   \<and> getFileIdsMap [Identifier ''c'', Punctuator ''.'', Identifier ''d''] = []"
  using unterminated_chain_not_recorded [of "[Identifier ''c'', Punctuator ''.'', Identifier ''d'']"
      "[Identifier ''a'', Punctuator ''.'', Identifier ''b'', Punctuator '';'']" "''a.b''"]
  by (simp add: getFileIdsMap_def idsStep_def Identifier_def Punctuator_def chainToken_def
      isIdentifier_def isDot_def truthyAt_def setKey_def objectPrototypeKeys_def)

end
